theory Spec2Isabelle
  imports Main
begin

section \<open>The crawler of \<open>crawl_ajax.py\<close>\<close>

text \<open>
  \<open>AJAXSpider\<close> keeps a set \<open>visited\<close>, a list \<open>results\<close> and an
  \<open>asyncio.Queue\<close> of pairs (url, depth). \<open>run\<close> starts \<open>concurrency\<close> worker
  coroutines and waits for \<open>queue.join()\<close>. Coroutines of one event loop are switched
  only where one of them suspends, so a worker moves in atomic blocks that end where it
  waits for the network (\<open>fetch\<close>) or for an item of the empty queue (\<open>queue.get\<close>);
  \<open>put\<close> on the unbounded queue never suspends. The model has one step for each such
  block, and one more where a worker that has finished an item goes back to
  \<open>queue.get\<close>: which worker moves next is given by a schedule, and every order in
  which the event loop can resume the workers is a schedule.

  The network, the HTML parser and \<open>urllib.parse\<close> are not part of the program: they
  are the fields of an environment record, each returning \<open>None\<close> where the library
  raises an exception. A run asks for each address and method at most once, so the
  answers of the network in one run are a function of the method and the address.
  A Python set is iterated in an order that the language leaves open; the model keeps
  the links of a page in the order of their tags, and no theorem below depends on it.
\<close>

subsection \<open>Data\<close>

type_synonym headers = "(string \<times> string) list"

text \<open>What \<open>session.request\<close> hands back: the status, the headers, and what
  \<open>response.text()\<close> and \<open>response.read()\<close> would return (\<open>None\<close>: they raise).\<close>

record response =
  resp_status :: int
  resp_headers :: headers
  resp_text :: "string option"
  resp_read :: "string option"

text \<open>A tag of the parsed document: its name and its attributes.\<close>

record tag =
  tag_name :: string
  tag_attrs :: "(string \<times> string) list"

record env =
  request :: "string \<Rightarrow> string \<Rightarrow> response option"
  soup_tags :: "string \<Rightarrow> tag list option"
  urljoin :: "string \<Rightarrow> string \<Rightarrow> string option"
  urldefrag :: "string \<Rightarrow> string option"
  urlparse_scheme :: "string \<Rightarrow> string option"

text \<open>One entry of \<open>self.results\<close>: the dict with keys url, method, status, headers.\<close>

record outcome =
  out_url :: string
  out_method :: string
  out_status :: int
  out_headers :: headers

text \<open>
  A worker coroutine is suspended in \<open>queue.get()\<close> (\<open>Idle\<close>), or inside
  \<open>process_url url depth\<close> in the \<open>fetch\<close> of the first method of the list, the
  others still to come (\<open>Fetching\<close>), or it has ended with an exception (\<open>Crashed\<close>).
\<close>

datatype worker = Idle | Fetching string int "string list" | Crashed

text \<open>
  The fields of the object that the traversal reads or writes. \<open>queue\<close> and
  \<open>unfinished_tasks\<close> are the two parts of the \<open>asyncio.Queue\<close>: its items, oldest
  first, and its counter of items put and not yet marked done. \<open>workers\<close> are the
  tasks that \<open>run\<close> creates.
\<close>

record spider =
  start_url :: string
  max_depth :: int
  concurrency :: int
  visited :: "string set"
  results :: "outcome list"
  queue :: "(string \<times> int) list"
  unfinished_tasks :: int
  workers :: "worker list"

subsection \<open>Strings and headers\<close>

fun starts_with :: "string \<Rightarrow> string \<Rightarrow> bool" where
  "starts_with [] s = True"
| "starts_with (c # cs) [] = False"
| "starts_with (c # cs) (d # ds) = (c = d \<and> starts_with cs ds)"

text \<open>Python's \<open>sub in s\<close> on strings.\<close>

fun str_in :: "string \<Rightarrow> string \<Rightarrow> bool" where
  "str_in sub [] = (sub = [])"
| "str_in sub (c # cs) = (starts_with sub (c # cs) \<or> str_in sub cs)"

text \<open>\<open>headers.get(name, default)\<close>.\<close>

definition headers_get :: "headers \<Rightarrow> string \<Rightarrow> string \<Rightarrow> string" where
  "headers_get hs name dflt = (case map_of hs name of None \<Rightarrow> dflt | Some v \<Rightarrow> v)"

definition is_html :: "headers \<Rightarrow> bool" where
  "is_html hs = str_in ''text/html'' (headers_get hs ''Content-Type'' [])"

subsection \<open>\<open>__init__\<close>\<close>

text \<open>
  The constructor stores its arguments, creates the empty set, the empty list and the
  queue, and puts \<open>(start_url, 0)\<close> on the queue, which counts one unfinished task.
  It has no check and no \<open>raise\<close>.
\<close>

definition AJAXSpider_init :: "string \<Rightarrow> int \<Rightarrow> int \<Rightarrow> spider" where
  "AJAXSpider_init url md c =
     \<lparr>start_url = url, max_depth = md, concurrency = c, visited = {}, results = [],
      queue = [(url, 0)], unfinished_tasks = 1, workers = []\<rparr>"

subsection \<open>The queue\<close>

text \<open>\<open>put\<close> on the unbounded queue appends the item and counts it.\<close>

definition put :: "spider \<Rightarrow> string \<times> int \<Rightarrow> spider" where
  "put s item = s\<lparr>queue := queue s @ [item], unfinished_tasks := unfinished_tasks s + 1\<rparr>"

text \<open>\<open>task_done\<close> raises \<open>ValueError\<close> when the counter is not positive.\<close>

definition task_done :: "spider \<Rightarrow> spider option" where
  "task_done s =
     (if unfinished_tasks s \<le> 0 then None
      else Some (s\<lparr>unfinished_tasks := unfinished_tasks s - 1\<rparr>))"

text \<open>\<open>join\<close> waits while the counter is positive.\<close>

definition join_returns :: "spider \<Rightarrow> bool" where
  "join_returns s \<longleftrightarrow> unfinished_tasks s \<le> 0"

subsection \<open>\<open>fetch\<close>\<close>

text \<open>
  The triple (status, content, headers), or \<open>None\<close> for the \<open>(None, None, None)\<close>
  of the \<open>except\<close> branch.
\<close>

definition fetch :: "env \<Rightarrow> string \<Rightarrow> string \<Rightarrow> (int \<times> string \<times> headers) option" where
  "fetch e url method =
     (case request e method url of
        None \<Rightarrow> None
      | Some r \<Rightarrow>
          (case (if is_html (resp_headers r) then resp_text r else resp_read r) of
             None \<Rightarrow> None
           | Some text \<Rightarrow> Some (resp_status r, text, resp_headers r)))"

subsection \<open>\<open>is_valid\<close> and \<open>extract_links\<close>\<close>

definition is_valid :: "env \<Rightarrow> string \<Rightarrow> bool option" where
  "is_valid e url =
     (case urlparse_scheme e url of
        None \<Rightarrow> None
      | Some scheme \<Rightarrow> Some (scheme = ''http'' \<or> scheme = ''https''))"

text \<open>\<open>links.add\<close>: the Python set as a list without repetition.\<close>

definition set_add :: "string \<Rightarrow> string list \<Rightarrow> string list" where
  "set_add x xs = (if x \<in> set xs then xs else xs @ [x])"

text \<open>The body of the \<open>for tag in ...\<close> loop, over the tags still to visit.\<close>

fun extract_loop :: "env \<Rightarrow> string \<Rightarrow> tag list \<Rightarrow> string list \<Rightarrow> string list option" where
  "extract_loop e base_url [] links = Some links"
| "extract_loop e base_url (t # ts) links =
     (let attr = (if tag_name t = ''a'' \<or> tag_name t = ''link'' then ''href'' else ''src'') in
      case map_of (tag_attrs t) attr of
        None \<Rightarrow> extract_loop e base_url ts links
      | Some link \<Rightarrow>
          if link = [] then extract_loop e base_url ts links
          else
            (case urljoin e base_url link of
               None \<Rightarrow> None
             | Some full_url \<Rightarrow>
                 (case urldefrag e full_url of
                    None \<Rightarrow> None
                  | Some parsed \<Rightarrow>
                      (case is_valid e parsed of
                         None \<Rightarrow> None
                       | Some ok \<Rightarrow>
                           extract_loop e base_url ts
                             (if ok then set_add parsed links else links)))))"

definition find_all :: "tag list \<Rightarrow> tag list" where
  "find_all tags =
     filter (\<lambda>t. tag_name t = ''a'' \<or> tag_name t = ''link'' \<or> tag_name t = ''script''
                  \<or> tag_name t = ''img'') tags"

definition extract_links :: "env \<Rightarrow> string \<Rightarrow> string \<Rightarrow> string list option" where
  "extract_links e html base_url =
     (case soup_tags e html of
        None \<Rightarrow> None
      | Some tags \<Rightarrow> extract_loop e base_url (find_all tags) [])"

subsection \<open>\<open>process_url\<close>\<close>

definition methods :: "string list" where
  "methods = [''GET'', ''POST'', ''PUT'', ''DELETE'', ''HEAD'', ''OPTIONS'']"

text \<open>
  Where the coroutine is after an atomic block: it has returned, it has raised, or it
  waits for the \<open>fetch\<close> of the first of the methods given.
\<close>

datatype pc = Returned | Raised | AwaitFetch "string list"

text \<open>From the call to the first \<open>await self.fetch\<close>: the guard and \<open>visited.add\<close>.\<close>

definition process_url_begin :: "spider \<Rightarrow> string \<Rightarrow> int \<Rightarrow> spider \<times> pc" where
  "process_url_begin s url depth =
     (if url \<in> visited s \<or> depth > max_depth s then (s, Returned)
      else (s\<lparr>visited := insert url (visited s)\<rparr>, AwaitFetch methods))"

text \<open>The loop \<open>for link in links: await self.queue.put((link, depth + 1))\<close>.\<close>

fun put_links :: "spider \<Rightarrow> string list \<Rightarrow> int \<Rightarrow> spider" where
  "put_links s [] depth = s"
| "put_links s (link # links) depth = put_links (put s (link, depth + 1)) links depth"

definition next_pc :: "string list \<Rightarrow> pc" where
  "next_pc rest = (if rest = [] then Returned else AwaitFetch rest)"

text \<open>
  From the answer of \<open>fetch url method\<close> to the next \<open>await self.fetch\<close>, or to the
  end of the loop when no method is left.
\<close>

definition process_url_resume ::
  "env \<Rightarrow> spider \<Rightarrow> string \<Rightarrow> int \<Rightarrow> string \<Rightarrow> string list \<Rightarrow> spider \<times> pc" where
  "process_url_resume e s url depth method rest =
     (case fetch e url method of
        None \<Rightarrow> (s, next_pc rest)
      | Some (status, content, hdrs) \<Rightarrow>
          (let s1 = s\<lparr>results := results s @
                        [\<lparr>out_url = url, out_method = method, out_status = status,
                          out_headers = hdrs\<rparr>]\<rparr>
           in if method = ''GET'' \<and> is_html hdrs \<and> content \<noteq> [] then
                (case extract_links e content url of
                   None \<Rightarrow> (s1, Raised)
                 | Some links \<Rightarrow> (put_links s1 links depth, next_pc rest))
              else (s1, next_pc rest)))"

subsection \<open>\<open>worker\<close> and \<open>run\<close>\<close>

text \<open>
  After \<open>process_url\<close> has returned or raised, the worker calls \<open>task_done\<close> (line 150
  or line 155) and goes back to \<open>queue.get()\<close>. A \<open>ValueError\<close> of \<open>task_done\<close>
  reaches the second \<open>except\<close>, whose own \<open>task_done\<close> raises again and ends the task.
\<close>

definition worker_after :: "spider \<Rightarrow> nat \<Rightarrow> string \<Rightarrow> int \<Rightarrow> pc \<Rightarrow> spider" where
  "worker_after s i url depth p =
     (case p of
        AwaitFetch ms \<Rightarrow> s\<lparr>workers := (workers s)[i := Fetching url depth ms]\<rparr>
      | _ \<Rightarrow>
          (case task_done s of
             None \<Rightarrow> s\<lparr>workers := (workers s)[i := Crashed]\<rparr>
           | Some s' \<Rightarrow> s'\<lparr>workers := (workers s')[i := Idle]\<rparr>))"

text \<open>
  One atomic block of worker \<open>i\<close>. \<open>None\<close>: the worker cannot move (it waits for an
  item of the empty queue, it has ended, or there is no such worker).
\<close>

definition worker_step :: "env \<Rightarrow> spider \<Rightarrow> nat \<Rightarrow> spider option" where
  "worker_step e s i =
     (if i < length (workers s) then
        (case workers s ! i of
           Idle \<Rightarrow>
             (case queue s of
                [] \<Rightarrow> None
              | (url, depth) # q \<Rightarrow>
                  (case process_url_begin (s\<lparr>queue := q\<rparr>) url depth of
                     (s', p) \<Rightarrow> Some (worker_after s' i url depth p)))
         | Fetching url depth ms \<Rightarrow>
             (case ms of
                [] \<Rightarrow> None
              | method # rest \<Rightarrow>
                  (case process_url_resume e s url depth method rest of
                     (s', p) \<Rightarrow> Some (worker_after s' i url depth p)))
         | Crashed \<Rightarrow> None)
      else None)"

text \<open>\<open>run\<close> creates one task for each element of \<open>range(self.concurrency)\<close>.\<close>

definition run_start :: "spider \<Rightarrow> spider" where
  "run_start s = s\<lparr>workers := replicate (nat (concurrency s)) Idle\<rparr>"

text \<open>The workers moving in the order of a schedule.\<close>

fun exec :: "env \<Rightarrow> spider \<Rightarrow> nat list \<Rightarrow> spider option" where
  "exec e s [] = Some s"
| "exec e s (i # sched) =
     (case worker_step e s i of None \<Rightarrow> None | Some s' \<Rightarrow> exec e s' sched)"

text \<open>A run from the state in which \<open>run\<close> has created its workers.\<close>

definition start :: "string \<Rightarrow> int \<Rightarrow> int \<Rightarrow> spider" where
  "start url md c = run_start (AJAXSpider_init url md c)"

section \<open>What a step does, and the events of a run\<close>

text \<open>
  The effect of one answer of \<open>fetch\<close> on the shared state, written without the
  control flow: the entries appended to \<open>results\<close>, the links put on the queue, and
  whether \<open>extract_links\<close> raises.
\<close>

definition recs :: "env \<Rightarrow> string \<Rightarrow> string \<Rightarrow> outcome list" where
  "recs e url method =
     (case fetch e url method of
        None \<Rightarrow> []
      | Some (status, content, hdrs) \<Rightarrow>
          [\<lparr>out_url = url, out_method = method, out_status = status, out_headers = hdrs\<rparr>])"

definition found :: "env \<Rightarrow> string \<Rightarrow> string \<Rightarrow> string list" where
  "found e url method =
     (case fetch e url method of
        None \<Rightarrow> []
      | Some (status, content, hdrs) \<Rightarrow>
          if method = ''GET'' \<and> is_html hdrs \<and> content \<noteq> [] then
            (case extract_links e content url of None \<Rightarrow> [] | Some links \<Rightarrow> links)
          else [])"

definition raises :: "env \<Rightarrow> string \<Rightarrow> string \<Rightarrow> bool" where
  "raises e url method =
     (case fetch e url method of
        None \<Rightarrow> False
      | Some (status, content, hdrs) \<Rightarrow>
          method = ''GET'' \<and> is_html hdrs \<and> content \<noteq> [] \<and> extract_links e content url = None)"

definition answered :: "env \<Rightarrow> spider \<Rightarrow> string \<Rightarrow> int \<Rightarrow> string \<Rightarrow> spider" where
  "answered e s url depth method =
     s\<lparr>results := results s @ recs e url method,
       queue := queue s @ map (\<lambda>l. (l, depth + 1)) (found e url method),
       unfinished_tasks := unfinished_tasks s + int (length (found e url method))\<rparr>"

definition leave :: "spider \<Rightarrow> nat \<Rightarrow> spider" where
  "leave s i =
     (case task_done s of
        None \<Rightarrow> s\<lparr>workers := (workers s)[i := Crashed]\<rparr>
      | Some s' \<Rightarrow> s'\<lparr>workers := (workers s')[i := Idle]\<rparr>)"

text \<open>
  What a run does, as a list of events. \<open>Begin u d\<close>: an item passed the guard of
  \<open>process_url\<close> and \<open>u\<close> was added to \<open>visited\<close>. \<open>Skip u d\<close>: the guard
  returned at once. \<open>Probe u d m\<close>: the \<open>fetch\<close> of method \<open>m\<close> for the item was
  answered. \<open>Put u d\<close>: \<open>process_url\<close> put the item on the queue.
\<close>

datatype event = Begin string int | Skip string int | Probe string int string | Put string int

definition step_events :: "env \<Rightarrow> spider \<Rightarrow> nat \<Rightarrow> event list" where
  "step_events e s i =
     (case workers s ! i of
        Idle \<Rightarrow>
          (case queue s of
             [] \<Rightarrow> []
           | (u, d) # q \<Rightarrow> [if u \<in> visited s \<or> d > max_depth s then Skip u d else Begin u d])
      | Fetching u d ms \<Rightarrow>
          (case ms of
             [] \<Rightarrow> []
           | m # rest \<Rightarrow> Probe u d m # map (\<lambda>l. Put l (d + 1)) (found e u m))
      | Crashed \<Rightarrow> [])"

fun trace :: "env \<Rightarrow> spider \<Rightarrow> nat list \<Rightarrow> event list" where
  "trace e s [] = []"
| "trace e s (i # sched) =
     (case worker_step e s i of
        None \<Rightarrow> []
      | Some s' \<Rightarrow> step_events e s i @ trace e s' sched)"

text \<open>The addresses whose processing began, in order.\<close>

fun begun :: "event list \<Rightarrow> string list" where
  "begun [] = []"
| "begun (Begin u d # h) = u # begun h"
| "begun (ev # h) = begun h"

text \<open>The entry that an answered probe leaves in the log: none when the probe failed.\<close>

fun outcome_of :: "env \<Rightarrow> event \<Rightarrow> outcome list" where
  "outcome_of e (Probe u d m) = recs e u m"
| "outcome_of e ev = []"

text \<open>The (address, method) pairs of the log.\<close>

definition log_pairs :: "spider \<Rightarrow> (string \<times> string) list" where
  "log_pairs s = map (\<lambda>r. (out_url r, out_method r)) (results s)"

subsection \<open>The link graph\<close>

text \<open>
  The links of a page are what \<open>process_url\<close> puts on the queue when the \<open>GET\<close> of
  the page is answered. \<open>hops e seed u d\<close>: a path of \<open>d\<close> links leads from the
  seed to \<open>u\<close>.
\<close>

definition links :: "env \<Rightarrow> string \<Rightarrow> string list" where
  "links e u = found e u ''GET''"

inductive hops :: "env \<Rightarrow> string \<Rightarrow> string \<Rightarrow> int \<Rightarrow> bool" for e seed where
  hops_seed: "hops e seed seed 0"
| hops_link: "hops e seed u d \<Longrightarrow> v \<in> set (links e u) \<Longrightarrow> hops e seed v (d + 1)"

text \<open>
  The link graph discovered by a run with the events \<open>h\<close> has the links of the pages
  whose \<open>GET\<close> was answered. \<open>found_path e h seed u d\<close>: a path of \<open>d\<close> such
  links leads from the seed to \<open>u\<close>.
\<close>

inductive found_path :: "env \<Rightarrow> event list \<Rightarrow> string \<Rightarrow> string \<Rightarrow> int \<Rightarrow> bool"
  for e h seed where
  at_seed: "found_path e h seed seed 0"
| by_link: "found_path e h seed u d \<Longrightarrow> Probe u k ''GET'' \<in> set h \<Longrightarrow> v \<in> set (links e u)
     \<Longrightarrow> found_path e h seed v (d + 1)"

subsection \<open>Invariants\<close>

text \<open>Every item queued, in process or probed lies on a discovered path of its depth,
  and what is in process or probed is within the depth bound.\<close>

definition discovered :: "env \<Rightarrow> spider \<Rightarrow> event list \<Rightarrow> bool" where
  "discovered e s h \<longleftrightarrow>
     (\<forall>(u, d) \<in> set (queue s). found_path e h (start_url s) u d) \<and>
     (\<forall>w \<in> set (workers s). \<forall>u d ms. w = Fetching u d ms \<longrightarrow>
        found_path e h (start_url s) u d \<and> d \<le> max_depth s) \<and>
     (\<forall>u d m. Probe u d m \<in> set h \<longrightarrow> found_path e h (start_url s) u d \<and> d \<le> max_depth s)"

fun is_fetching :: "worker \<Rightarrow> bool" where
  "is_fetching (Fetching u d ms) = True"
| "is_fetching w = False"

definition in_flight :: "spider \<Rightarrow> nat" where
  "in_flight s = length (filter is_fetching (workers s))"

text \<open>The counter of the queue counts the items queued and the items being processed.\<close>

definition counted :: "spider \<Rightarrow> bool" where
  "counted s \<longleftrightarrow>
     Crashed \<notin> set (workers s) \<and>
     unfinished_tasks s = int (length (queue s)) + int (in_flight s)"

text \<open>Every item and every event lies on a path from the seed, within the depth bound.\<close>

fun event_ok :: "env \<Rightarrow> string \<Rightarrow> int \<Rightarrow> event \<Rightarrow> bool" where
  "event_ok e seed md (Begin u d) = (hops e seed u d \<and> d \<le> md)"
| "event_ok e seed md (Skip u d) = hops e seed u d"
| "event_ok e seed md (Probe u d m) = (hops e seed u d \<and> d \<le> md)"
| "event_ok e seed md (Put u d) = (hops e seed u d \<and> 1 \<le> d \<and> d \<le> md + 1)"

definition on_graph :: "env \<Rightarrow> spider \<Rightarrow> event list \<Rightarrow> bool" where
  "on_graph e s h \<longleftrightarrow>
     (\<forall>(u, d) \<in> set (queue s). hops e (start_url s) u d) \<and>
     (\<forall>w \<in> set (workers s). \<forall>u d ms. w = Fetching u d ms \<longrightarrow>
        hops e (start_url s) u d \<and> d \<le> max_depth s) \<and>
     (\<forall>ev \<in> set h. event_ok e (start_url s) (max_depth s) ev)"

text \<open>\<open>visited\<close> holds the addresses begun, each begun once; the log holds the
  outcomes of the probes answered.\<close>

definition recorded :: "env \<Rightarrow> spider \<Rightarrow> event list \<Rightarrow> bool" where
  "recorded e s h \<longleftrightarrow>
     visited s = set (begun h) \<and> distinct (begun h) \<and>
     results s = concat (map (outcome_of e) h)"

text \<open>An item put with a depth within the bound is still queued or its address is visited.\<close>

definition pending :: "spider \<Rightarrow> event list \<Rightarrow> bool" where
  "pending s h \<longleftrightarrow>
     (\<forall>u d. (Put u d \<in> set h \<or> (u = start_url s \<and> d = 0)) \<and> d \<le> max_depth s \<longrightarrow>
        (u, d) \<in> set (queue s) \<or> u \<in> visited s)"

text \<open>Every item queued or begun is the seed at depth 0 or was put by \<open>process_url\<close>.\<close>

definition sourced :: "spider \<Rightarrow> event list \<Rightarrow> bool" where
  "sourced s h \<longleftrightarrow>
     (\<forall>(u, d) \<in> set (queue s). (u = start_url s \<and> d = 0) \<or> Put u d \<in> set h) \<and>
     (\<forall>u d. Begin u d \<in> set h \<longrightarrow> (u = start_url s \<and> d = 0) \<or> Put u d \<in> set h)"

subsection \<open>Invariants of the order of a run\<close>

text \<open>The methods whose probe for the address \<open>u\<close> was answered, in order.\<close>

fun probed :: "event list \<Rightarrow> string \<Rightarrow> string list" where
  "probed [] u = []"
| "probed (Probe v d m # h) u = (if v = u then m # probed h u else probed h u)"
| "probed (ev # h) u = probed h u"

text \<open>The methods probed for an address whose processing is over: all of them, or
  \<open>GET\<close> alone when \<open>extract_links\<close> raises on its answer.\<close>

definition expected :: "env \<Rightarrow> string \<Rightarrow> string list" where
  "expected e u = (if raises e u ''GET'' then [''GET''] else methods)"

text \<open>Worker \<open>i\<close> is inside the item \<open>(u, d)\<close>, the methods \<open>ms\<close> still to be answered.\<close>

definition fetching :: "spider \<Rightarrow> nat \<Rightarrow> string \<Rightarrow> int \<Rightarrow> string list \<Rightarrow> bool" where
  "fetching s i u d ms \<longleftrightarrow> i < length (workers s) \<and> workers s ! i = Fetching u d ms"

text \<open>
  A worker inside an item has begun it, has had the methods before \<open>ms\<close> answered and
  no other, and is the only worker inside an item of that address; an address visited
  with no worker inside has had all its probes.
\<close>

definition progress :: "env \<Rightarrow> spider \<Rightarrow> event list \<Rightarrow> bool" where
  "progress e s h \<longleftrightarrow>
     (\<forall>i u d ms. fetching s i u d ms \<longrightarrow>
        u \<in> visited s \<and> Begin u d \<in> set h \<and> ms \<noteq> [] \<and> methods = probed h u @ ms
        \<and> (''GET'' \<notin> set ms \<longrightarrow> \<not> raises e u ''GET'')
        \<and> (\<forall>j d' ms'. fetching s j u d' ms' \<longrightarrow> j = i)) \<and>
     (\<forall>u \<in> visited s. (\<exists>i d ms. fetching s i u d ms) \<or> probed h u = expected e u) \<and>
     (\<forall>u. u \<notin> visited s \<longrightarrow> probed h u = []) \<and>
     (\<forall>u d m. Probe u d m \<in> set h \<longrightarrow> Begin u d \<in> set h)"

text \<open>When the \<open>GET\<close> of an item is answered, its links are put one level deeper.\<close>

definition links_put :: "env \<Rightarrow> event list \<Rightarrow> bool" where
  "links_put e h \<longleftrightarrow>
     (\<forall>u d. Probe u d ''GET'' \<in> set h \<longrightarrow> (\<forall>v \<in> set (links e u). Put v (d + 1) \<in> set h))"

text \<open>The first item begun is the seed at depth 0.\<close>

definition seed_first :: "spider \<Rightarrow> event list \<Rightarrow> bool" where
  "seed_first s h \<longleftrightarrow>
     (h = [] \<and> queue s = [(start_url s, 0)] \<and> visited s = {}
        \<and> (\<forall>i u d ms. \<not> fetching s i u d ms))
     \<or> (0 \<le> max_depth s \<longrightarrow> Begin (start_url s) 0 \<in> set h)"

text \<open>An item of depth 1 or more exists only after the \<open>GET\<close> of the seed was answered.\<close>

definition deep_after_seed :: "spider \<Rightarrow> event list \<Rightarrow> bool" where
  "deep_after_seed s h \<longleftrightarrow>
     (\<forall>v k. (v, k) \<in> set (queue s) \<and> 1 \<le> k \<longrightarrow> Probe (start_url s) 0 ''GET'' \<in> set h) \<and>
     (\<forall>i u d ms. fetching s i u d ms \<and> 1 \<le> d \<longrightarrow> Probe (start_url s) 0 ''GET'' \<in> set h)"

text \<open>In the queue no item of depth 2 or more stands before an item of depth 1 or less.\<close>

fun shallow_first :: "(string \<times> int) list \<Rightarrow> bool" where
  "shallow_first [] = True"
| "shallow_first ((u, d) # q) = ((2 \<le> d \<longrightarrow> (\<forall>(v, k) \<in> set q. 2 \<le> k)) \<and> shallow_first q)"

text \<open>A link of the seed is begun at depth 1 at most.\<close>

definition early :: "env \<Rightarrow> spider \<Rightarrow> event list \<Rightarrow> bool" where
  "early e s h \<longleftrightarrow>
     (\<forall>v k. Begin v k \<in> set h \<and> v \<in> set (links e (start_url s)) \<longrightarrow> k \<le> 1)"

text \<open>All of these together.\<close>

definition sound :: "env \<Rightarrow> spider \<Rightarrow> event list \<Rightarrow> bool" where
  "sound e s h \<longleftrightarrow>
     on_graph e s h \<and> recorded e s h \<and> pending s h \<and> progress e s h \<and> links_put e h
     \<and> seed_first s h \<and> deep_after_seed s h \<and> shallow_first (queue s) \<and> early e s h"

text \<open>The addresses within \<open>md\<close> links of the seed, and the pairs that a run which
  processes exactly these addresses leaves in the log.\<close>

definition within :: "env \<Rightarrow> string \<Rightarrow> int \<Rightarrow> string set" where
  "within e url md = {u. \<exists>d. d \<le> md \<and> hops e url u d}"

definition pairs_within :: "env \<Rightarrow> string \<Rightarrow> int \<Rightarrow> (string \<times> string) set" where
  "pairs_within e url md =
     {(u, m). u \<in> within e url md \<and> m \<in> set (expected e u) \<and> fetch e u m \<noteq> None}"

text \<open>The log has an entry for the address and the method.\<close>

definition has_pair :: "string \<Rightarrow> string \<Rightarrow> spider \<Rightarrow> bool" where
  "has_pair u m s \<longleftrightarrow> (u, m) \<in> set (log_pairs s)"

text \<open>The set of the pairs of the log.\<close>

definition pair_set :: "spider \<Rightarrow> (string \<times> string) set" where
  "pair_set s = set (log_pairs s)"

section \<open>Example environments\<close>

text \<open>
  A server that answers every request with status 200 and an HTML body, the body being
  the address requested; a parser that finds in the body \<open>u\<close> one anchor for each
  address of \<open>g u\<close>. All links are absolute, so \<open>urljoin\<close> returns the link.
\<close>

definition fake_env :: "(string \<Rightarrow> string list) \<Rightarrow> env" where
  "fake_env g =
     \<lparr>request = (\<lambda>method url. Some \<lparr>resp_status = 200,
          resp_headers = [(''Content-Type'', ''text/html'')],
          resp_text = Some url, resp_read = Some url\<rparr>),
      soup_tags = (\<lambda>html. Some (map (\<lambda>l. \<lparr>tag_name = ''a'', tag_attrs = [(''href'', l)]\<rparr>) (g html))),
      urljoin = (\<lambda>base link. Some link),
      urldefrag = (\<lambda>url. Some (takeWhile (\<lambda>c. c \<noteq> CHR ''#'') url)),
      urlparse_scheme = (\<lambda>url. Some (takeWhile (\<lambda>c. c \<noteq> CHR '':'') url))\<rparr>"

text \<open>The same with a network on which every request raises.\<close>

definition dead_env :: env where
  "dead_env = (fake_env (\<lambda>u. []))\<lparr>request := (\<lambda>method url. None)\<rparr>"

text \<open>Two pages \<open>a\<close> and \<open>b\<close> linked from the seed, both linking to \<open>c\<close>.\<close>

definition diamond :: "string \<Rightarrow> string list" where
  "diamond u =
     (if u = ''http://s'' then [''http://a'', ''http://b'']
      else if u = ''http://a'' then [''http://c'']
      else if u = ''http://b'' then [''http://c'']
      else [])"

text \<open>
  The page \<open>d\<close> is two links from the seed through \<open>a\<close> and three through \<open>b\<close> and
  \<open>c\<close>; it links to \<open>e\<close>.
\<close>

definition detour :: "string \<Rightarrow> string list" where
  "detour u =
     (if u = ''http://s'' then [''http://a'', ''http://b'']
      else if u = ''http://b'' then [''http://c'']
      else if u = ''http://c'' then [''http://d'']
      else if u = ''http://a'' then [''http://d'']
      else if u = ''http://d'' then [''http://e'']
      else [])"

text \<open>A page with a link that carries a fragment, a link that is not http, and the
  first link again without its fragment.\<close>

definition mixed :: "string \<Rightarrow> string list" where
  "mixed u = (if u = ''http://s'' then [''http://a#top'', ''mailto:x'', ''http://a''] else [])"

section \<open>Normalised addresses\<close>

text \<open>
  \<open>a\<close> comes from an attribute of one of the tags: the attribute is not empty,
  \<open>urljoin\<close> resolves it against the base address, \<open>urldefrag\<close> of the result is
  \<open>a\<close>, and \<open>a\<close> has the scheme http or https.
\<close>

definition normalised :: "env \<Rightarrow> string \<Rightarrow> tag list \<Rightarrow> string \<Rightarrow> bool" where
  "normalised e base_url tags a \<longleftrightarrow>
     (\<exists>t \<in> set tags. \<exists>link full_url.
        map_of (tag_attrs t)
          (if tag_name t = ''a'' \<or> tag_name t = ''link'' then ''href'' else ''src'') = Some link
        \<and> link \<noteq> [] \<and> urljoin e base_url link = Some full_url
        \<and> urldefrag e full_url = Some a \<and> is_valid e a = Some True)"

section \<open>Steps\<close>

lemma put_links_eq:
  "put_links s ls d =
     s\<lparr>queue := queue s @ map (\<lambda>l. (l, d + 1)) ls,
       unfinished_tasks := unfinished_tasks s + int (length ls)\<rparr>"
  by (induction ls arbitrary: s) (simp_all add: put_def)

lemma process_url_resume_eq:
  "process_url_resume e s url d m rest =
     (answered e s url d m, if raises e url m then Raised else next_pc rest)"
proof (cases "fetch e url m")
  case None
  then show ?thesis
    by (simp add: process_url_resume_def answered_def recs_def found_def raises_def)
next
  case (Some r)
  obtain status content hdrs where r: "r = (status, content, hdrs)"
    by (cases r)
  show ?thesis
  proof (cases "m = ''GET'' \<and> is_html hdrs \<and> content \<noteq> []")
    case False
    with Some r show ?thesis
      by (auto simp: process_url_resume_def answered_def recs_def found_def raises_def)
  next
    case True
    with Some r show ?thesis
      by (cases "extract_links e content url")
        (simp_all add: process_url_resume_def answered_def recs_def found_def raises_def
          put_links_eq)
  qed
qed

text \<open>The four kinds of step: an item skipped, an item begun, an answer after which
  the worker waits for the next one, and an answer after which it leaves the item.\<close>

lemma worker_step_cases [consumes 1, case_names skipped started continued finished]:
  assumes "worker_step e s i = Some s'"
  obtains
    (skipped) u d q where "i < length (workers s)" "workers s ! i = Idle" "queue s = (u, d) # q"
      "u \<in> visited s \<or> d > max_depth s" "s' = leave (s\<lparr>queue := q\<rparr>) i"
      "step_events e s i = [Skip u d]"
  | (started) u d q where "i < length (workers s)" "workers s ! i = Idle" "queue s = (u, d) # q"
      "u \<notin> visited s" "d \<le> max_depth s"
      "s' = s\<lparr>queue := q, visited := insert u (visited s),
              workers := (workers s)[i := Fetching u d methods]\<rparr>"
      "step_events e s i = [Begin u d]"
  | (continued) u d m rest where "i < length (workers s)" "workers s ! i = Fetching u d (m # rest)"
      "\<not> raises e u m" "rest \<noteq> []"
      "s' = (answered e s u d m)\<lparr>workers := (workers s)[i := Fetching u d rest]\<rparr>"
      "step_events e s i = Probe u d m # map (\<lambda>l. Put l (d + 1)) (found e u m)"
  | (finished) u d m rest where "i < length (workers s)" "workers s ! i = Fetching u d (m # rest)"
      "raises e u m \<or> rest = []"
      "s' = leave (answered e s u d m) i"
      "step_events e s i = Probe u d m # map (\<lambda>l. Put l (d + 1)) (found e u m)"
proof -
  from assms have i: "i < length (workers s)"
    by (simp add: worker_step_def split: if_splits)
  show thesis
  proof (cases "workers s ! i")
    case Idle
    with assms i obtain u d q where q: "queue s = (u, d) # q"
      by (cases "queue s") (auto simp: worker_step_def)
    show thesis
    proof (cases "u \<in> visited s \<or> d > max_depth s")
      case True
      with assms i Idle q have "s' = leave (s\<lparr>queue := q\<rparr>) i"
        by (auto simp: worker_step_def process_url_begin_def worker_after_def leave_def)
      with i Idle q True show thesis
        by (intro skipped) (auto simp: step_events_def)
    next
      case False
      with assms i Idle q have "s' = s\<lparr>queue := q, visited := insert u (visited s),
              workers := (workers s)[i := Fetching u d methods]\<rparr>"
        by (auto simp: worker_step_def process_url_begin_def worker_after_def)
      with i Idle q False show thesis
        by (intro started) (auto simp: step_events_def)
    qed
  next
    case (Fetching u d ms)
    with assms i obtain m rest where ms: "ms = m # rest"
      by (cases ms) (auto simp: worker_step_def)
    show thesis
    proof (cases "raises e u m \<or> rest = []")
      case True
      with assms i Fetching ms have "s' = leave (answered e s u d m) i"
        by (auto simp: worker_step_def process_url_resume_eq worker_after_def leave_def
            next_pc_def)
      with i Fetching ms True show thesis
        by (intro finished) (auto simp: step_events_def)
    next
      case False
      with assms i Fetching ms
      have "s' = (answered e s u d m)\<lparr>workers := (workers s)[i := Fetching u d rest]\<rparr>"
        by (auto simp: worker_step_def process_url_resume_eq worker_after_def next_pc_def
            answered_def)
      with i Fetching ms False show thesis
        by (intro continued) (auto simp: step_events_def)
    qed
  next
    case Crashed
    with assms i show thesis by (simp add: worker_step_def)
  qed
qed

lemma leave_fields [simp]:
  "visited (leave s i) = visited s"
  "results (leave s i) = results s"
  "queue (leave s i) = queue s"
  "max_depth (leave s i) = max_depth s"
  "start_url (leave s i) = start_url s"
  "length (workers (leave s i)) = length (workers s)"
  by (simp_all add: leave_def task_done_def)

lemma leave_workers:
  "set (workers (leave s i)) \<subseteq> insert Idle (insert Crashed (set (workers s)))"
  using set_update_subset_insert [of "workers s" i]
  by (auto simp: leave_def task_done_def)

lemma leave_fetching:
  "Fetching u d ms \<in> set (workers (leave s i)) \<Longrightarrow> Fetching u d ms \<in> set (workers s)"
  using leave_workers [of s i] by auto

lemma answered_fields [simp]:
  "visited (answered e s u d m) = visited s"
  "results (answered e s u d m) = results s @ recs e u m"
  "queue (answered e s u d m) = queue s @ map (\<lambda>l. (l, d + 1)) (found e u m)"
  "max_depth (answered e s u d m) = max_depth s"
  "start_url (answered e s u d m) = start_url s"
  "workers (answered e s u d m) = workers s"
  "unfinished_tasks (answered e s u d m) = unfinished_tasks s + int (length (found e u m))"
  by (simp_all add: answered_def)

lemma update_fetching:
  "Fetching u d ms \<in> set (ws[i := w]) \<Longrightarrow> Fetching u d ms = w \<or> Fetching u d ms \<in> set ws"
  using set_update_subset_insert [of ws i w] by auto

lemma worker_step_frame:
  assumes "worker_step e s i = Some s'"
  shows "start_url s' = start_url s \<and> max_depth s' = max_depth s
         \<and> length (workers s') = length (workers s)"
  using assms by (cases rule: worker_step_cases) simp_all

lemma exec_frame:
  "exec e s sched = Some s' \<Longrightarrow>
     start_url s' = start_url s \<and> max_depth s' = max_depth s
     \<and> length (workers s') = length (workers s)"
proof (induction sched arbitrary: s)
  case Nil
  then show ?case by simp
next
  case (Cons i sched)
  from Cons.prems obtain s1 where s1: "worker_step e s i = Some s1"
    and rest: "exec e s1 sched = Some s'"
    by (auto split: option.splits)
  from worker_step_frame [OF s1] Cons.IH [OF rest] show ?case by simp
qed

lemma start_fields [simp]:
  "start_url (start url md c) = url"
  "max_depth (start url md c) = md"
  "visited (start url md c) = {}"
  "results (start url md c) = []"
  "queue (start url md c) = [(url, 0)]"
  "unfinished_tasks (start url md c) = 1"
  "workers (start url md c) = replicate (nat c) Idle"
  by (simp_all add: start_def run_start_def AJAXSpider_init_def)

text \<open>A property of a state and the events so far that the start has and every step
  keeps holds after every run.\<close>

lemma exec_invariant:
  assumes step: "\<And>s h i s'. P s h \<Longrightarrow> worker_step e s i = Some s' \<Longrightarrow> P s' (h @ step_events e s i)"
  shows "P s h \<Longrightarrow> exec e s sched = Some s' \<Longrightarrow> P s' (h @ trace e s sched)"
proof (induction sched arbitrary: s h)
  case Nil
  then show ?case by simp
next
  case (Cons i sched)
  from Cons.prems(2) obtain s1 where s1: "worker_step e s i = Some s1"
    and rest: "exec e s1 sched = Some s'"
    by (auto split: option.splits)
  from Cons.prems(1) s1 have "P s1 (h @ step_events e s i)"
    by (rule step)
  from this rest have "P s' ((h @ step_events e s i) @ trace e s1 sched)"
    by (rule Cons.IH)
  with s1 show ?case by simp
qed

section \<open>The counter of the queue\<close>

lemma filter_update_length:
  assumes "i < length xs"
  shows "int (length (filter P (xs[i := y]))) =
         int (length (filter P xs)) - (if P (xs ! i) then 1 else 0) + (if P y then 1 else 0)"
  using assms
proof (induction xs arbitrary: i)
  case Nil
  then show ?case by simp
next
  case (Cons x xs)
  show ?case
  proof (cases i)
    case 0
    then show ?thesis by simp
  next
    case (Suc j)
    with Cons.prems have "j < length xs" by simp
    from Cons.IH [OF this] Suc show ?thesis by (auto split: if_splits)
  qed
qed

lemma counted_start: "counted (start url md c)"
  by (simp add: counted_def in_flight_def)

lemma not_crashed_update:
  "Crashed \<notin> set ws \<Longrightarrow> w \<noteq> Crashed \<Longrightarrow> Crashed \<notin> set (ws[i := w])"
  using set_update_subset_insert [of ws i w] by auto

lemma leave_counted:
  assumes "0 < unfinished_tasks s"
  shows "leave s i = s\<lparr>unfinished_tasks := unfinished_tasks s - 1, workers := (workers s)[i := Idle]\<rparr>"
  using assms by (simp add: leave_def task_done_def)

lemma counted_step:
  assumes "counted s" and "worker_step e s i = Some s'"
  shows "counted s'"
  using assms(2)
proof (cases rule: worker_step_cases)
  case (skipped u d q)
  from assms(1) skipped(3) have pos: "0 < unfinished_tasks (s\<lparr>queue := q\<rparr>)"
    by (simp add: counted_def)
  from skipped(1,2) have "(workers s)[i := Idle] = workers s"
    by (metis list_update_id)
  with assms(1) skipped(3) show ?thesis
    unfolding skipped(5) leave_counted [OF pos]
    by (simp add: counted_def in_flight_def)
next
  case (started u d q)
  with assms(1) show ?thesis
    by (simp add: counted_def in_flight_def filter_update_length not_crashed_update)
next
  case (continued u d m rest)
  with assms(1) show ?thesis
    by (simp add: counted_def in_flight_def filter_update_length not_crashed_update answered_def)
next
  case (finished u d m rest)
  from finished(1) have "int (length (filter is_fetching ((workers s)[i := Idle]))) =
      int (length (filter is_fetching (workers s))) - 1"
    by (simp add: filter_update_length finished(2))
  moreover from this have "1 \<le> int (length (filter is_fetching (workers s)))"
    by linarith
  ultimately have pos: "0 < unfinished_tasks (answered e s u d m)"
    and cnt: "int (in_flight s) = int (length (filter is_fetching ((workers s)[i := Idle]))) + 1"
    using assms(1) by (simp_all add: counted_def answered_def in_flight_def)
  from assms(1) cnt show ?thesis
    unfolding finished(4) leave_counted [OF pos]
    by (simp add: counted_def in_flight_def answered_def not_crashed_update)
qed

lemma counted_exec:
  assumes "counted s" and "exec e s sched = Some s'"
  shows "counted s'"
  using exec_invariant [where P = "\<lambda>s h. counted s" and h = "[]", OF _ assms]
  by (blast intro: counted_step)

lemma counted_quiescent:
  assumes "counted s"
  shows "join_returns s \<longleftrightarrow> queue s = [] \<and> (\<forall>w \<in> set (workers s). w = Idle)"
proof
  assume "join_returns s"
  with assms have "int (length (queue s)) + int (in_flight s) \<le> 0"
    by (simp add: join_returns_def counted_def)
  then have "length (queue s) = 0" and "in_flight s = 0"
    by linarith+
  then have q: "queue s = []" and f: "filter is_fetching (workers s) = []"
    by (simp_all add: in_flight_def)
  have "w = Idle" if "w \<in> set (workers s)" for w
  proof (cases w)
    case Idle
    then show ?thesis .
  next
    case (Fetching u d ms)
    with that have "w \<in> set (filter is_fetching (workers s))" by simp
    with f show ?thesis by simp
  next
    case Crashed
    with that assms show ?thesis by (simp add: counted_def)
  qed
  with q show "queue s = [] \<and> (\<forall>w \<in> set (workers s). w = Idle)" by blast
next
  assume a: "queue s = [] \<and> (\<forall>w \<in> set (workers s). w = Idle)"
  then have "filter is_fetching (workers s) = []"
    by (auto simp: filter_empty_conv)
  with a assms show "join_returns s"
    by (simp add: join_returns_def counted_def in_flight_def)
qed

section \<open>Runs from the start\<close>

lemma exec_start_frame:
  assumes "exec e (start url md c) sched = Some s"
  shows "start_url s = url" and "max_depth s = md"
  using exec_frame [OF assms] by simp_all

lemma counted_run:
  assumes "exec e (start url md c) sched = Some s"
  shows "counted s"
  using counted_start assms by (rule counted_exec)

lemma begun_set: "u \<in> set (begun h) \<longleftrightarrow> (\<exists>d. Begin u d \<in> set h)"
  by (induction h rule: begun.induct) auto

section \<open>Paths from the seed\<close>

lemma hops_nonneg: "hops e seed u d \<Longrightarrow> 0 \<le> d"
  by (induction rule: hops.induct) simp_all

lemma hops_zero:
  assumes "hops e seed u 0"
  shows "u = seed"
  using assms
proof (cases rule: hops.cases)
  case hops_seed
  then show ?thesis by simp
next
  case (hops_link u' d)
  from hops_nonneg [OF hops_link(2)] hops_link(1) show ?thesis by simp
qed

lemma found_not_get: "m \<noteq> ''GET'' \<Longrightarrow> found e u m = []"
  by (simp add: found_def split: option.splits prod.splits)

lemma found_links: "set (found e u m) \<subseteq> set (links e u)"
  by (cases "m = ''GET''") (simp_all add: links_def found_not_get)

lemma on_graph_start: "on_graph e (start url md c) []"
  by (auto simp: on_graph_def intro: hops_seed)

lemma on_graph_step:
  assumes inv: "on_graph e s h" and step: "worker_step e s i = Some s'"
  shows "on_graph e s' (h @ step_events e s i)"
  using step
proof (cases rule: worker_step_cases)
  case (skipped u d q)
  from inv skipped(3) have "hops e (start_url s) u d"
    by (simp add: on_graph_def)
  with inv skipped(3) show ?thesis
    unfolding skipped(5,6)
    by (auto simp: on_graph_def dest: leave_fetching)
next
  case (started u d q)
  from inv started(3) have "hops e (start_url s) u d"
    by (simp add: on_graph_def)
  with inv started(3,5) show ?thesis
    unfolding started(6,7)
    by (auto simp: on_graph_def dest!: update_fetching)
next
  case (continued u d m rest)
  from continued(1,2) have "Fetching u d (m # rest) \<in> set (workers s)"
    by (metis nth_mem)
  with inv have ud: "hops e (start_url s) u d" "d \<le> max_depth s"
    by (auto simp: on_graph_def)
  have new: "hops e (start_url s) l (d + 1)" if "l \<in> set (found e u m)" for l
    using that found_links [of e u m] ud(1) by (auto intro: hops_link)
  from hops_nonneg [OF ud(1)] inv ud new show ?thesis
    unfolding continued(5,6)
    by (auto simp: on_graph_def dest!: update_fetching)
next
  case (finished u d m rest)
  from finished(1,2) have "Fetching u d (m # rest) \<in> set (workers s)"
    by (metis nth_mem)
  with inv have ud: "hops e (start_url s) u d" "d \<le> max_depth s"
    by (auto simp: on_graph_def)
  have new: "hops e (start_url s) l (d + 1)" if "l \<in> set (found e u m)" for l
    using that found_links [of e u m] ud(1) by (auto intro: hops_link)
  from hops_nonneg [OF ud(1)] inv ud new show ?thesis
    unfolding finished(4,5)
    by (auto simp: on_graph_def dest: leave_fetching)
qed

lemma on_graph_exec:
  assumes "exec e (start url md c) sched = Some s"
  shows "on_graph e s (trace e (start url md c) sched)"
  using exec_invariant [where P = "on_graph e" and h = "[]", OF on_graph_step on_graph_start assms]
  by simp

section \<open>The visited set and the log\<close>

lemma begun_append: "begun (h @ h') = begun h @ begun h'"
  by (induction h rule: begun.induct) simp_all

lemma begun_puts [simp]: "begun (map (\<lambda>l. Put l d) ls) = []"
  by (induction ls) simp_all

lemma outcome_puts [simp]: "concat (map (outcome_of e) (map (\<lambda>l. Put l d) ls)) = []"
  by (induction ls) simp_all

lemma recorded_start: "recorded e (start url md c) []"
  by (simp add: recorded_def)

lemma recorded_step:
  assumes inv: "recorded e s h" and step: "worker_step e s i = Some s'"
  shows "recorded e s' (h @ step_events e s i)"
  using step
proof (cases rule: worker_step_cases)
  case (skipped u d q)
  with inv show ?thesis
    by (simp add: recorded_def begun_append)
next
  case (started u d q)
  with inv show ?thesis
    by (simp add: recorded_def begun_append)
next
  case (continued u d m rest)
  with inv show ?thesis
    by (simp add: recorded_def begun_append)
next
  case (finished u d m rest)
  with inv show ?thesis
    by (simp add: recorded_def begun_append)
qed

lemma recorded_exec:
  assumes "exec e (start url md c) sched = Some s"
  shows "recorded e s (trace e (start url md c) sched)"
  using exec_invariant [where P = "recorded e" and h = "[]", OF recorded_step recorded_start assms]
  by simp

section \<open>Items within the depth bound are not lost\<close>

lemma pending_start: "pending (start url md c) []"
  by (simp add: pending_def)

lemma pending_step:
  assumes inv: "pending s h" and step: "worker_step e s i = Some s'"
  shows "pending s' (h @ step_events e s i)"
  unfolding pending_def
proof (intro allI impI)
  fix u d
  assume a: "(Put u d \<in> set (h @ step_events e s i) \<or> (u = start_url s' \<and> d = 0))
             \<and> d \<le> max_depth s'"
  have old: "(u, d) \<in> set (queue s) \<or> u \<in> visited s"
    if "Put u d \<in> set h \<or> (u = start_url s \<and> d = 0)" and "d \<le> max_depth s"
    using inv that unfolding pending_def by blast
  from step show "(u, d) \<in> set (queue s') \<or> u \<in> visited s'"
  proof (cases rule: worker_step_cases)
    case (skipped u0 d0 q)
    with a have "Put u d \<in> set h \<or> (u = start_url s \<and> d = 0)" and "d \<le> max_depth s"
      by auto
    from old [OF this] \<open>d \<le> max_depth s\<close> skipped(3,4) show ?thesis
      unfolding skipped(5) by auto
  next
    case (started u0 d0 q)
    with a have "Put u d \<in> set h \<or> (u = start_url s \<and> d = 0)" and "d \<le> max_depth s"
      by auto
    from old [OF this] started(3) show ?thesis
      unfolding started(6) by auto
  next
    case (continued u0 d0 m rest)
    from a continued have md: "d \<le> max_depth s" by simp
    show ?thesis
    proof (cases "Put u d \<in> set (map (\<lambda>l. Put l (d0 + 1)) (found e u0 m))")
      case True
      then show ?thesis unfolding continued(5) by auto
    next
      case False
      with a continued have "Put u d \<in> set h \<or> (u = start_url s \<and> d = 0)" by auto
      from old [OF this md] show ?thesis unfolding continued(5) by auto
    qed
  next
    case (finished u0 d0 m rest)
    from a finished have md: "d \<le> max_depth s" by simp
    show ?thesis
    proof (cases "Put u d \<in> set (map (\<lambda>l. Put l (d0 + 1)) (found e u0 m))")
      case True
      then show ?thesis unfolding finished(4) by auto
    next
      case False
      with a finished have "Put u d \<in> set h \<or> (u = start_url s \<and> d = 0)" by auto
      from old [OF this md] show ?thesis unfolding finished(4) by auto
    qed
  qed
qed

lemma pending_exec:
  assumes "exec e (start url md c) sched = Some s"
  shows "pending s (trace e (start url md c) sched)"
  using exec_invariant [where P = pending and h = "[]", OF pending_step pending_start assms]
  by simp

lemma sourced_start: "sourced (start url md c) []"
  by (simp add: sourced_def)

lemma sourced_step:
  assumes inv: "sourced s h" and step: "worker_step e s i = Some s'"
  shows "sourced s' (h @ step_events e s i)"
proof -
  from inv have q: "(u = start_url s \<and> d = 0) \<or> Put u d \<in> set h"
    if "(u, d) \<in> set (queue s)" for u d
    using that unfolding sourced_def by blast
  from inv have b: "(u = start_url s \<and> d = 0) \<or> Put u d \<in> set h"
    if "Begin u d \<in> set h" for u d
    using that unfolding sourced_def by blast
  from step show ?thesis
  proof (cases rule: worker_step_cases)
    case (skipped u0 d0 q')
    with q b show ?thesis
      unfolding sourced_def by auto
  next
    case (started u0 d0 q')
    with q b show ?thesis
      unfolding sourced_def by auto
  next
    case (continued u0 d0 m rest)
    with q b show ?thesis
      unfolding sourced_def by auto
  next
    case (finished u0 d0 m rest)
    with q b show ?thesis
      unfolding sourced_def by auto
  qed
qed

lemma sourced_exec:
  assumes "exec e (start url md c) sched = Some s"
  shows "sourced s (trace e (start url md c) sched)"
  using exec_invariant [where P = sourced and h = "[]", OF sourced_step sourced_start assms]
  by simp

lemma log_rows:
  assumes "exec e (start url md c) sched = Some s"
  shows "set (results s) = (\<Union>ev \<in> set (trace e (start url md c) sched). set (outcome_of e ev))"
  using recorded_exec [OF assms] by (simp add: recorded_def)


section \<open>The discovered link graph\<close>

lemma found_path_mono:
  assumes "found_path e h seed u d" and "set h \<subseteq> set h'"
  shows "found_path e h' seed u d"
  using assms
proof (induction rule: found_path.induct)
  case at_seed
  show ?case by (rule found_path.at_seed)
next
  case (by_link u d k v)
  from by_link.IH [OF by_link.prems] by_link.hyps(2,3) by_link.prems show ?case
    by (auto intro: found_path.by_link)
qed

lemma found_path_hops: "found_path e h seed u d \<Longrightarrow> hops e seed u d"
  by (induction rule: found_path.induct) (auto intro: hops.intros)

lemma discovered_start: "discovered e (start url md c) []"
  by (auto simp: discovered_def intro: at_seed)

lemma discovered_step:
  assumes inv: "discovered e s h" and step: "worker_step e s i = Some s'"
  shows "discovered e s' (h @ step_events e s i)"
proof -
  let ?h = "h @ step_events e s i"
  from worker_step_frame [OF step]
  have fr: "start_url s' = start_url s" "max_depth s' = max_depth s" by simp_all
  have up: "found_path e ?h (start_url s) u d" if "found_path e h (start_url s) u d" for u d
    using that by (rule found_path_mono) simp
  from inv have q0: "found_path e h (start_url s) u d" if "(u, d) \<in> set (queue s)" for u d
    using that by (auto simp: discovered_def)
  from inv have w0: "found_path e h (start_url s) u d \<and> d \<le> max_depth s"
    if "Fetching u d ms \<in> set (workers s)" for u d ms
    using that by (auto simp: discovered_def)
  from inv have "\<forall>u d m. Probe u d m \<in> set h \<longrightarrow>
      found_path e h (start_url s) u d \<and> d \<le> max_depth s"
    unfolding discovered_def by (elim conjE)
  then have p0: "found_path e h (start_url s) u d \<and> d \<le> max_depth s"
    if "Probe u d m \<in> set h" for u d m
    using that by blast
  have q: "found_path e ?h (start_url s) u d" if "(u, d) \<in> set (queue s)" for u d
    using q0 [OF that] by (rule up)
  have w: "found_path e ?h (start_url s) u d \<and> d \<le> max_depth s"
    if "Fetching u d ms \<in> set (workers s)" for u d ms
    using w0 [OF that] up by blast
  have p: "found_path e ?h (start_url s) u d \<and> d \<le> max_depth s"
    if "Probe u d m \<in> set h" for u d m
    using p0 [OF that] up by blast
  from step show ?thesis
  proof (cases rule: worker_step_cases)
    case (skipped u0 d0 q')
    have "found_path e ?h (start_url s) u d" if "(u, d) \<in> set (queue s')" for u d
      using that q [of u d] skipped(3) by (simp add: skipped(5))
    moreover have "found_path e ?h (start_url s) u d \<and> d \<le> max_depth s"
      if "Fetching u d ms \<in> set (workers s')" for u d ms
      using that w [of u d ms] unfolding skipped(5) by (auto dest: leave_fetching)
    moreover have "found_path e ?h (start_url s) u d \<and> d \<le> max_depth s"
      if "Probe u d m \<in> set ?h" for u d m
      using that p [of u d m] by (simp add: skipped(6))
    ultimately show ?thesis
      unfolding discovered_def fr by auto
  next
    case (started u0 d0 q')
    from q [of u0 d0] started(3) have new: "found_path e ?h (start_url s) u0 d0" by simp
    have "found_path e ?h (start_url s) u d" if "(u, d) \<in> set (queue s')" for u d
      using that q [of u d] started(3) by (simp add: started(6))
    moreover have "found_path e ?h (start_url s) u d \<and> d \<le> max_depth s"
      if "Fetching u d ms \<in> set (workers s')" for u d ms
      using that w [of u d ms] new started(5) unfolding started(6)
      by (auto dest!: update_fetching)
    moreover have "found_path e ?h (start_url s) u d \<and> d \<le> max_depth s"
      if "Probe u d m \<in> set ?h" for u d m
      using that p [of u d m] by (simp add: started(7))
    ultimately show ?thesis
      unfolding discovered_def fr by auto
  next
    case (continued u0 d0 m rest)
    from continued(1,2) have "Fetching u0 d0 (m # rest) \<in> set (workers s)"
      by (metis nth_mem)
    from w [OF this] have cur: "found_path e ?h (start_url s) u0 d0" "d0 \<le> max_depth s"
      by simp_all
    have new: "found_path e ?h (start_url s) l (d0 + 1)" if "l \<in> set (found e u0 m)" for l
    proof -
      from that have "found e u0 m \<noteq> []" by auto
      then have "m = ''GET''" using found_not_get by blast
      then have "Probe u0 d0 ''GET'' \<in> set ?h" by (simp add: continued(6))
      with cur(1) that found_links [of e u0 m] show ?thesis
        by (auto intro: by_link)
    qed
    have "found_path e ?h (start_url s) u d" if "(u, d) \<in> set (queue s')" for u d
      using that q [of u d] new by (auto simp: continued(5))
    moreover have "found_path e ?h (start_url s) u d \<and> d \<le> max_depth s"
      if "Fetching u d ms \<in> set (workers s')" for u d ms
      using that w [of u d ms] cur unfolding continued(5)
      by (auto dest!: update_fetching)
    moreover have "found_path e ?h (start_url s) u d \<and> d \<le> max_depth s"
      if "Probe u d m' \<in> set ?h" for u d m'
      using that p [of u d m'] cur by (auto simp: continued(6))
    ultimately show ?thesis
      unfolding discovered_def fr by auto
  next
    case (finished u0 d0 m rest)
    from finished(1,2) have "Fetching u0 d0 (m # rest) \<in> set (workers s)"
      by (metis nth_mem)
    from w [OF this] have cur: "found_path e ?h (start_url s) u0 d0" "d0 \<le> max_depth s"
      by simp_all
    have new: "found_path e ?h (start_url s) l (d0 + 1)" if "l \<in> set (found e u0 m)" for l
    proof -
      from that have "found e u0 m \<noteq> []" by auto
      then have "m = ''GET''" using found_not_get by blast
      then have "Probe u0 d0 ''GET'' \<in> set ?h" by (simp add: finished(5))
      with cur(1) that found_links [of e u0 m] show ?thesis
        by (auto intro: by_link)
    qed
    have "found_path e ?h (start_url s) u d" if "(u, d) \<in> set (queue s')" for u d
      using that q [of u d] new by (auto simp: finished(4))
    moreover have "found_path e ?h (start_url s) u d \<and> d \<le> max_depth s"
      if "Fetching u d ms \<in> set (workers s')" for u d ms
      using that w [of u d ms] unfolding finished(4)
      by (auto dest: leave_fetching)
    moreover have "found_path e ?h (start_url s) u d \<and> d \<le> max_depth s"
      if "Probe u d m' \<in> set ?h" for u d m'
      using that p [of u d m'] cur by (auto simp: finished(5))
    ultimately show ?thesis
      unfolding discovered_def fr by auto
  qed
qed

lemma discovered_exec:
  assumes "exec e (start url md c) sched = Some s"
  shows "discovered e s (trace e (start url md c) sched)"
  using exec_invariant [where P = "discovered e" and h = "[]",
      OF discovered_step discovered_start assms]
  by simp

section \<open>The probes of an address\<close>

lemma probed_append: "probed (h @ h') u = probed h u @ probed h' u"
  by (induction h u rule: probed.induct) simp_all

lemma probed_puts [simp]: "probed (map (\<lambda>l. Put l d) ls) u = []"
  by (induction ls) simp_all

lemma probed_set: "m \<in> set (probed h u) \<longleftrightarrow> (\<exists>d. Probe u d m \<in> set h)"
  by (induction h u rule: probed.induct) auto

lemma leave_nth:
  "workers (leave s i) ! j = Fetching u d ms \<Longrightarrow> j < length (workers s) \<Longrightarrow>
     j \<noteq> i \<and> workers s ! j = Fetching u d ms"
  by (cases "j = i") (auto simp: leave_def task_done_def split: if_splits)

lemma leave_nth_other:
  "j \<noteq> i \<Longrightarrow> workers (leave s i) ! j = workers s ! j"
  by (auto simp: leave_def task_done_def)

lemma fetching_leave:
  "fetching (leave s i) j u d ms \<longleftrightarrow> j \<noteq> i \<and> fetching s j u d ms"
  unfolding fetching_def using leave_nth [of s i j u d ms] leave_nth_other [of j i s]
  by auto

lemma fetching_update:
  "fetching (s\<lparr>workers := (workers s)[i := w]\<rparr>) j u d ms \<longleftrightarrow>
     (j = i \<and> i < length (workers s) \<and> w = Fetching u d ms) \<or> (j \<noteq> i \<and> fetching s j u d ms)"
  unfolding fetching_def by (cases "j = i") auto

lemma fetching_fields [simp]:
  "fetching (s\<lparr>queue := q\<rparr>) = fetching s"
  "fetching (s\<lparr>visited := v\<rparr>) = fetching s"
  "fetching (answered e s u d m) = fetching s"
  by (simp_all add: fetching_def fun_eq_iff)

lemma raises_get: "raises e u m \<Longrightarrow> m = ''GET''"
  by (auto simp: raises_def split: option.splits)

lemma methods_get_first:
  assumes "methods = pre @ ''GET'' # rest"
  shows "pre = []"
proof (cases pre)
  case Nil
  then show ?thesis .
next
  case (Cons a list)
  from assms have "tl methods = tl (pre @ ''GET'' # rest)" by (rule arg_cong)
  with Cons have "''GET'' \<in> set (tl methods)" by simp
  then show ?thesis by (simp add: methods_def)
qed

lemma fetching_fun:
  "fetching s i u d ms \<Longrightarrow> fetching s i u' d' ms' \<Longrightarrow> u' = u \<and> d' = d \<and> ms' = ms"
  by (simp add: fetching_def)

lemma get_in_methods: "''GET'' \<in> set methods"
  by (simp add: methods_def)

lemma progress_start: "progress e (start url md c) []"
  by (simp add: progress_def fetching_def)

lemma progress_step:
  assumes inv: "progress e s h" and step: "worker_step e s i = Some s'"
  shows "progress e s' (h @ step_events e s i)"
proof -
  from inv have p1: "u \<in> visited s \<and> Begin u d \<in> set h \<and> ms \<noteq> [] \<and> methods = probed h u @ ms
        \<and> (''GET'' \<notin> set ms \<longrightarrow> \<not> raises e u ''GET'')"
    if "fetching s j u d ms" for j u d ms
    using that unfolding progress_def by blast
  from inv have uniq: "j = k" if "fetching s j u d ms" and "fetching s k u d' ms'"
    for j k u d ms d' ms'
    using that unfolding progress_def by blast
  from inv have p2: "(\<exists>j d ms. fetching s j u d ms) \<or> probed h u = expected e u"
    if "u \<in> visited s" for u
    using that unfolding progress_def by blast
  from inv have p3: "probed h u = []" if "u \<notin> visited s" for u
    using that unfolding progress_def by blast
  from inv have p4: "Begin u d \<in> set h" if "Probe u d m \<in> set h" for u d m
    using that unfolding progress_def by blast
  from step show ?thesis
  proof (cases rule: worker_step_cases)
    case (skipped u0 d0 q)
    have idle: "\<not> fetching s i u d ms" for u d ms
      using skipped(2) by (simp add: fetching_def)
    have fe: "fetching s' j u d ms \<longleftrightarrow> fetching s j u d ms" for j u d ms
      unfolding skipped(5) using idle by (auto simp: fetching_leave)
    have vis: "visited s' = visited s" unfolding skipped(5) by simp
    have pr: "probed (h @ step_events e s i) u = probed h u" for u
      unfolding skipped(6) by (simp add: probed_append)
    have ev: "set (h @ step_events e s i) = insert (Skip u0 d0) (set h)"
      unfolding skipped(6) by simp
    show ?thesis
      unfolding progress_def fe vis pr ev
      using p1 uniq p2 p3 p4 by (intro conjI allI impI ballI) auto
  next
    case (started u0 d0 q)
    have idle: "\<not> fetching s i u d ms" for u d ms
      using started(2) by (simp add: fetching_def)
    have fe: "fetching s' j u d ms \<longleftrightarrow>
        (j = i \<and> u = u0 \<and> d = d0 \<and> ms = methods) \<or> fetching s j u d ms" for j u d ms
      unfolding started(6)
      using idle started(1)
        fetching_update [of "s\<lparr>queue := q, visited := insert u0 (visited s)\<rparr>" i _ j u d ms]
      by auto
    have vis: "visited s' = insert u0 (visited s)" unfolding started(6) by simp
    have pr: "probed (h @ step_events e s i) u = probed h u" for u
      unfolding started(7) by (simp add: probed_append)
    have ev: "set (h @ step_events e s i) = insert (Begin u0 d0) (set h)"
      unfolding started(7) by simp
    have fresh: "\<not> fetching s j u0 d ms" for j d ms
      using p1 [of j u0 d ms] started(4) by blast
    have c1: "u \<in> visited s' \<and> Begin u d \<in> set (h @ step_events e s i) \<and> ms \<noteq> []
        \<and> methods = probed (h @ step_events e s i) u @ ms
        \<and> (''GET'' \<notin> set ms \<longrightarrow> \<not> raises e u ''GET'')
        \<and> (\<forall>k d' ms'. fetching s' k u d' ms' \<longrightarrow> k = j)"
      if f: "fetching s' j u d ms" for j u d ms
    proof (cases "fetching s j u d ms")
      case True
      with fresh have "u \<noteq> u0" by blast
      with p1 [OF True] uniq [OF _ True] show ?thesis
        unfolding vis pr ev fe by auto
    next
      case False
      with f have "j = i" "u = u0" "d = d0" "ms = methods"
        unfolding fe by auto
      with p3 [OF started(4)] fresh get_in_methods show ?thesis
        unfolding vis pr ev fe by (auto simp: methods_def)
    qed
    have c2: "(\<exists>j d ms. fetching s' j u d ms) \<or> probed (h @ step_events e s i) u = expected e u"
      if "u \<in> visited s'" for u
      using that p2 [of u] unfolding vis pr fe by auto
    have c3: "probed (h @ step_events e s i) u = []" if "u \<notin> visited s'" for u
      using that p3 [of u] unfolding vis pr by auto
    have c4: "Begin u d \<in> set (h @ step_events e s i)"
      if "Probe u d m \<in> set (h @ step_events e s i)" for u d m
      using that p4 [of u d m] unfolding ev by auto
    from c1 c2 c3 c4 show ?thesis
      unfolding progress_def by blast
  next
    case (continued u0 d0 m rest)
    have cur: "fetching s i u0 d0 (m # rest)"
      using continued(1,2) by (simp add: fetching_def)
    have fe: "fetching s' j u d ms \<longleftrightarrow>
        (j = i \<and> u = u0 \<and> d = d0 \<and> ms = rest) \<or> (j \<noteq> i \<and> fetching s j u d ms)" for j u d ms
      unfolding continued(5)
      using continued(1) fetching_update [of "answered e s u0 d0 m" i _ j u d ms]
      by auto
    have vis: "visited s' = visited s" unfolding continued(5) by simp
    have pr: "probed (h @ step_events e s i) u = probed h u @ (if u = u0 then [m] else [])" for u
      unfolding continued(6) by (simp add: probed_append)
    have ev: "set (h @ step_events e s i)
        = insert (Probe u0 d0 m) (set h \<union> (\<lambda>l. Put l (d0 + 1)) ` set (found e u0 m))"
      unfolding continued(6) by auto
    note c = p1 [OF cur]
    have c1: "u \<in> visited s' \<and> Begin u d \<in> set (h @ step_events e s i) \<and> ms \<noteq> []
        \<and> methods = probed (h @ step_events e s i) u @ ms
        \<and> (''GET'' \<notin> set ms \<longrightarrow> \<not> raises e u ''GET'')
        \<and> (\<forall>k d' ms'. fetching s' k u d' ms' \<longrightarrow> k = j)"
      if f: "fetching s' j u d ms" for j u d ms
    proof (cases "j = i")
      case True
      with f have eq: "u = u0" "d = d0" "ms = rest" unfolding fe by auto
      have "k = i" if "fetching s' k u0 d' ms'" for k d' ms'
        using that uniq [OF cur] unfolding fe by blast
      with c continued(3,4) True eq show ?thesis
        unfolding vis pr ev by auto
    next
      case False
      with f have old: "fetching s j u d ms" unfolding fe by auto
      with False uniq [OF cur] have ne: "u \<noteq> u0" by blast
      have "k = j" if "fetching s' k u d' ms'" for k d' ms'
        using that ne uniq [OF _ old] unfolding fe by blast
      with p1 [OF old] ne show ?thesis
        unfolding vis pr ev by auto
    qed
    have c2: "(\<exists>j d ms. fetching s' j u d ms) \<or> probed (h @ step_events e s i) u = expected e u"
      if "u \<in> visited s'" for u
    proof (cases "u = u0")
      case True
      then have "fetching s' i u d0 rest" unfolding fe by simp
      then show ?thesis by blast
    next
      case False
      from that p2 [of u] consider j d ms where "fetching s j u d ms"
        | "probed h u = expected e u"
        unfolding vis by blast
      then show ?thesis
      proof cases
        case 1
        with False fetching_fun [OF cur] have "j \<noteq> i" by blast
        with 1 have "fetching s' j u d ms" unfolding fe by simp
        then show ?thesis by blast
      next
        case 2
        with False show ?thesis unfolding pr by simp
      qed
    qed
    have c3: "probed (h @ step_events e s i) u = []" if "u \<notin> visited s'" for u
      using that p3 [of u] c unfolding vis pr by auto
    have c4: "Begin u d \<in> set (h @ step_events e s i)"
      if "Probe u d m' \<in> set (h @ step_events e s i)" for u d m'
      using that p4 [of u d m'] c unfolding ev by auto
    from c1 c2 c3 c4 show ?thesis
      unfolding progress_def by blast
  next
    case (finished u0 d0 m rest)
    have cur: "fetching s i u0 d0 (m # rest)"
      using finished(1,2) by (simp add: fetching_def)
    have fe: "fetching s' j u d ms \<longleftrightarrow> j \<noteq> i \<and> fetching s j u d ms" for j u d ms
      unfolding finished(4) by (simp add: fetching_leave)
    have vis: "visited s' = visited s" unfolding finished(4) by simp
    have pr: "probed (h @ step_events e s i) u = probed h u @ (if u = u0 then [m] else [])" for u
      unfolding finished(5) by (simp add: probed_append)
    have ev: "set (h @ step_events e s i)
        = insert (Probe u0 d0 m) (set h \<union> (\<lambda>l. Put l (d0 + 1)) ` set (found e u0 m))"
      unfolding finished(5) by auto
    note c = p1 [OF cur]
    have c1: "u \<in> visited s' \<and> Begin u d \<in> set (h @ step_events e s i) \<and> ms \<noteq> []
        \<and> methods = probed (h @ step_events e s i) u @ ms
        \<and> (''GET'' \<notin> set ms \<longrightarrow> \<not> raises e u ''GET'')
        \<and> (\<forall>k d' ms'. fetching s' k u d' ms' \<longrightarrow> k = j)"
      if f: "fetching s' j u d ms" for j u d ms
    proof -
      from f have ji: "j \<noteq> i" and old: "fetching s j u d ms" unfolding fe by auto
      with uniq [OF cur] have ne: "u \<noteq> u0" by blast
      have "k = j" if "fetching s' k u d' ms'" for k d' ms'
        using that uniq [OF _ old] unfolding fe by blast
      with p1 [OF old] ne show ?thesis
        unfolding vis pr ev by auto
    qed
    have fin: "probed h u0 @ [m] = expected e u0"
    proof (cases "raises e u0 m")
      case True
      then have m: "m = ''GET''" by (rule raises_get)
      with c have "probed h u0 = []" by (auto dest: methods_get_first)
      with True m show ?thesis by (simp add: expected_def)
    next
      case False
      with finished(3) have r: "rest = []" by simp
      with c have ms: "methods = probed h u0 @ [m]" by simp
      have "\<not> raises e u0 ''GET''"
      proof (cases "m = ''GET''")
        case True
        with False show ?thesis by simp
      next
        case False
        with c r show ?thesis by simp
      qed
      with ms show ?thesis by (simp add: expected_def)
    qed
    have c2: "(\<exists>j d ms. fetching s' j u d ms) \<or> probed (h @ step_events e s i) u = expected e u"
      if "u \<in> visited s'" for u
    proof (cases "u = u0")
      case True
      with fin show ?thesis unfolding pr by simp
    next
      case False
      from that p2 [of u] consider j d ms where "fetching s j u d ms"
        | "probed h u = expected e u"
        unfolding vis by blast
      then show ?thesis
      proof cases
        case 1
        with False fetching_fun [OF cur] have "j \<noteq> i" by blast
        with 1 have "fetching s' j u d ms" unfolding fe by simp
        then show ?thesis by blast
      next
        case 2
        with False show ?thesis unfolding pr by simp
      qed
    qed
    have c3: "probed (h @ step_events e s i) u = []" if "u \<notin> visited s'" for u
      using that p3 [of u] c unfolding vis pr by auto
    have c4: "Begin u d \<in> set (h @ step_events e s i)"
      if "Probe u d m' \<in> set (h @ step_events e s i)" for u d m'
      using that p4 [of u d m'] c unfolding ev by auto
    from c1 c2 c3 c4 show ?thesis
      unfolding progress_def by blast
  qed
qed

section \<open>The order of a run\<close>

lemma links_put_step:
  assumes inv: "links_put e h" and step: "worker_step e s i = Some s'"
  shows "links_put e (h @ step_events e s i)"
proof -
  from inv have old: "Put v (d + 1) \<in> set h"
    if "Probe u d ''GET'' \<in> set h" and "v \<in> set (links e u)" for u d v
    using that unfolding links_put_def by blast
  from step show ?thesis
  proof (cases rule: worker_step_cases)
    case (skipped u0 d0 q)
    with old show ?thesis unfolding links_put_def by auto
  next
    case (started u0 d0 q)
    with old show ?thesis unfolding links_put_def by auto
  next
    case (continued u0 d0 m rest)
    with old show ?thesis unfolding links_put_def by (auto simp: links_def)
  next
    case (finished u0 d0 m rest)
    with old show ?thesis unfolding links_put_def by (auto simp: links_def)
  qed
qed

lemma seed_first_step:
  assumes inv: "seed_first s h" and step: "worker_step e s i = Some s'"
  shows "seed_first s' (h @ step_events e s i)"
proof -
  note fr = worker_step_frame [OF step]
  from inv consider
      (init) "h = []" "queue s = [(start_url s, 0)]" "visited s = {}"
        "\<And>i u d ms. \<not> fetching s i u d ms"
    | (later) "0 \<le> max_depth s \<longrightarrow> Begin (start_url s) 0 \<in> set h"
    unfolding seed_first_def by blast
  then show ?thesis
  proof cases
    case init
    from step show ?thesis
    proof (cases rule: worker_step_cases)
      case (skipped u0 d0 q)
      with init fr show ?thesis unfolding seed_first_def by auto
    next
      case (started u0 d0 q)
      with init fr show ?thesis unfolding seed_first_def by auto
    next
      case (continued u0 d0 m rest)
      with init(4) [of i u0 d0 "m # rest"] show ?thesis by (simp add: fetching_def)
    next
      case (finished u0 d0 m rest)
      with init(4) [of i u0 d0 "m # rest"] show ?thesis by (simp add: fetching_def)
    qed
  next
    case later
    with fr show ?thesis unfolding seed_first_def by auto
  qed
qed

lemma deep_after_seed_step:
  assumes inv: "deep_after_seed s h" and gr: "on_graph e s h"
    and step: "worker_step e s i = Some s'"
  shows "deep_after_seed s' (h @ step_events e s i)"
proof -
  let ?P = "\<lambda>h. Probe (start_url s) 0 ''GET'' \<in> set h"
  from worker_step_frame [OF step] have fr: "start_url s' = start_url s" by simp
  from inv have q: "?P h" if "(v, k) \<in> set (queue s)" and "1 \<le> k" for v k
    using that unfolding deep_after_seed_def by blast
  from inv have w: "?P h" if "fetching s j u d ms" and "1 \<le> d" for j u d ms
    using that unfolding deep_after_seed_def by blast
  from step show ?thesis
  proof (cases rule: worker_step_cases)
    case (skipped u0 d0 q')
    have fe: "fetching s' j u d ms \<Longrightarrow> fetching s j u d ms" for j u d ms
      unfolding skipped(5) by (simp add: fetching_leave)
    have "?P (h @ step_events e s i)" if "fetching s' j u d ms" and "1 \<le> d" for j u d ms
      using w [OF fe [OF that(1)] that(2)] by simp
    moreover have "?P (h @ step_events e s i)" if "(v, k) \<in> set (queue s')" and "1 \<le> k" for v k
      using that q [of v k] skipped(3) by (auto simp: skipped(5))
    ultimately show ?thesis
      unfolding deep_after_seed_def fr by blast
  next
    case (started u0 d0 q')
    have fe: "fetching s' j u d ms \<Longrightarrow> (u = u0 \<and> d = d0) \<or> fetching s j u d ms" for j u d ms
      unfolding started(6)
      using fetching_update [of "s\<lparr>queue := q', visited := insert u0 (visited s)\<rparr>" i _ j u d ms]
      by auto
    have "?P (h @ step_events e s i)" if "fetching s' j u d ms" and "1 \<le> d" for j u d ms
      using fe [OF that(1)] that(2) q [of u0 d0] w [of j u d ms] started(3) by auto
    moreover have "?P (h @ step_events e s i)" if "(v, k) \<in> set (queue s')" and "1 \<le> k" for v k
      using that q [of v k] started(3) by (auto simp: started(6))
    ultimately show ?thesis
      unfolding deep_after_seed_def fr by blast
  next
    case (continued u0 d0 m rest)
    have cur: "fetching s i u0 d0 (m # rest)"
      using continued(1,2) by (simp add: fetching_def)
    with gr have hp: "hops e (start_url s) u0 d0"
      unfolding on_graph_def fetching_def by (metis nth_mem)
    have new: "?P (h @ step_events e s i)" if "found e u0 m \<noteq> []"
    proof (cases "1 \<le> d0")
      case True
      from w [OF cur True] show ?thesis by simp
    next
      case False
      with hops_nonneg [OF hp] have "d0 = 0" by simp
      moreover from this hp have "u0 = start_url s" by (simp add: hops_zero)
      moreover from that have "m = ''GET''" using found_not_get by blast
      ultimately show ?thesis unfolding continued(6) by simp
    qed
    have fe: "fetching s' j u d ms \<Longrightarrow> (u = u0 \<and> d = d0) \<or> fetching s j u d ms" for j u d ms
      unfolding continued(5)
      using fetching_update [of "answered e s u0 d0 m" i _ j u d ms]
      by auto
    have "?P (h @ step_events e s i)" if "fetching s' j u d ms" and "1 \<le> d" for j u d ms
      using fe [OF that(1)] that(2) w [OF cur] w [of j u d ms] by auto
    moreover have "?P (h @ step_events e s i)" if "(v, k) \<in> set (queue s')" and "1 \<le> k" for v k
    proof (cases "(v, k) \<in> set (queue s)")
      case True
      from q [OF this that(2)] show ?thesis by simp
    next
      case False
      with that(1) have "found e u0 m \<noteq> []" by (auto simp: continued(5))
      then show ?thesis by (rule new)
    qed
    ultimately show ?thesis
      unfolding deep_after_seed_def fr by blast
  next
    case (finished u0 d0 m rest)
    have cur: "fetching s i u0 d0 (m # rest)"
      using finished(1,2) by (simp add: fetching_def)
    with gr have hp: "hops e (start_url s) u0 d0"
      unfolding on_graph_def fetching_def by (metis nth_mem)
    have new: "?P (h @ step_events e s i)" if "found e u0 m \<noteq> []"
    proof (cases "1 \<le> d0")
      case True
      from w [OF cur True] show ?thesis by simp
    next
      case False
      with hops_nonneg [OF hp] have "d0 = 0" by simp
      moreover from this hp have "u0 = start_url s" by (simp add: hops_zero)
      moreover from that have "m = ''GET''" using found_not_get by blast
      ultimately show ?thesis unfolding finished(5) by simp
    qed
    have "?P (h @ step_events e s i)" if "fetching s' j u d ms" and "1 \<le> d" for j u d ms
      using that w [of j u d ms] unfolding finished(4) by (simp add: fetching_leave)
    moreover have "?P (h @ step_events e s i)" if "(v, k) \<in> set (queue s')" and "1 \<le> k" for v k
    proof (cases "(v, k) \<in> set (queue s)")
      case True
      from q [OF this that(2)] show ?thesis by simp
    next
      case False
      with that(1) have "found e u0 m \<noteq> []" by (auto simp: finished(4))
      then show ?thesis by (rule new)
    qed
    ultimately show ?thesis
      unfolding deep_after_seed_def fr by blast
  qed
qed


lemma shallow_first_level: "shallow_first (map (\<lambda>l. (l, d)) ls)"
  by (induction ls) auto

lemma shallow_first_append:
  assumes "shallow_first q" and "\<forall>(v, k) \<in> set q. 2 \<le> k \<longrightarrow> 2 \<le> d"
  shows "shallow_first (q @ map (\<lambda>l. (l, d)) ls)"
  using assms
proof (induction q)
  case Nil
  then show ?case by (simp add: shallow_first_level)
next
  case (Cons x q)
  obtain u k where x: "x = (u, k)" by (cases x)
  with Cons show ?case by auto
qed

lemma shallow_first_head:
  assumes "shallow_first ((u, d) # q)" and "(v, k) \<in> set q" and "k < 2"
  shows "d < 2"
  using assms by auto

lemma shallow_first_step:
  assumes inv: "shallow_first (queue s)" and deep: "deep_after_seed s h"
    and gr: "on_graph e s h" and pr: "progress e s h"
    and step: "worker_step e s i = Some s'"
  shows "shallow_first (queue s')"
proof -
  have push: "shallow_first (queue (answered e s u0 d0 m))"
    if cur: "fetching s i u0 d0 (m # rest)" for u0 d0 m rest
  proof (cases "found e u0 m = []")
    case True
    with inv show ?thesis by simp
  next
    case False
    then have m: "m = ''GET''" using found_not_get by blast
    from cur gr have hp: "hops e (start_url s) u0 d0"
      unfolding on_graph_def fetching_def by (metis nth_mem)
    have "2 \<le> d0 + 1" if "(v, k) \<in> set (queue s)" and "2 \<le> k" for v k
    proof (rule ccontr)
      assume "\<not> 2 \<le> d0 + 1"
      with hops_nonneg [OF hp] have "d0 = 0" by simp
      with hp have u0: "u0 = start_url s" by (simp add: hops_zero)
      from deep that have "Probe (start_url s) 0 ''GET'' \<in> set h"
        unfolding deep_after_seed_def by force
      then have "''GET'' \<in> set (probed h (start_url s))"
        by (auto simp: probed_set)
      moreover from pr cur m u0 have "methods = probed h (start_url s) @ ''GET'' # rest"
        unfolding progress_def by blast
      then have "probed h (start_url s) = []" by (rule methods_get_first)
      ultimately show False by simp
    qed
    with inv show ?thesis
      by (auto intro!: shallow_first_append)
  qed
  from step show ?thesis
  proof (cases rule: worker_step_cases)
    case (skipped u0 d0 q)
    with inv show ?thesis by simp
  next
    case (started u0 d0 q)
    with inv show ?thesis by simp
  next
    case (continued u0 d0 m rest)
    then have "fetching s i u0 d0 (m # rest)" by (simp add: fetching_def)
    from push [OF this] show ?thesis unfolding continued(5) by simp
  next
    case (finished u0 d0 m rest)
    then have "fetching s i u0 d0 (m # rest)" by (simp add: fetching_def)
    from push [OF this] show ?thesis unfolding finished(4) by simp
  qed
qed

lemma early_step:
  assumes inv: "early e s h" and deep: "deep_after_seed s h" and lp: "links_put e h"
    and pe: "pending s h" and sh: "shallow_first (queue s)"
    and step: "worker_step e s i = Some s'"
  shows "early e s' (h @ step_events e s i)"
proof -
  from worker_step_frame [OF step] have fr: "start_url s' = start_url s" by simp
  from inv have old: "k \<le> 1" if "Begin v k \<in> set h" and "v \<in> set (links e (start_url s))" for v k
    using that unfolding early_def by blast
  from step show ?thesis
  proof (cases rule: worker_step_cases)
    case (skipped u0 d0 q)
    with old show ?thesis unfolding early_def fr by auto
  next
    case (started u0 d0 q)
    have "d0 \<le> 1" if link: "u0 \<in> set (links e (start_url s))"
    proof (rule ccontr)
      assume "\<not> d0 \<le> 1"
      then have d0: "2 \<le> d0" by simp
      with deep started(3) have "Probe (start_url s) 0 ''GET'' \<in> set h"
        unfolding deep_after_seed_def by force
      with lp link have "Put u0 (0 + 1) \<in> set h"
        unfolding links_put_def by blast
      with pe d0 started(5) have "(u0, 1) \<in> set (queue s) \<or> u0 \<in> visited s"
        unfolding pending_def by force
      with started(3,4) d0 have "(u0, 1) \<in> set q" by auto
      with sh started(3) have "d0 < 2"
        using shallow_first_head [of u0 d0 q u0 1] by simp
      with d0 show False by simp
    qed
    with old show ?thesis unfolding early_def fr started(7) by auto
  next
    case (continued u0 d0 m rest)
    with old show ?thesis unfolding early_def fr by auto
  next
    case (finished u0 d0 m rest)
    with old show ?thesis unfolding early_def fr by auto
  qed
qed

lemma start_not_fetching: "\<not> fetching (start url md c) i u d ms"
  by (auto simp: fetching_def)

lemma sound_start: "sound e (start url md c) []"
  unfolding sound_def
  using on_graph_start recorded_start pending_start progress_start
  by (simp add: links_put_def seed_first_def deep_after_seed_def early_def start_not_fetching)

lemma sound_step:
  assumes inv: "sound e s h" and step: "worker_step e s i = Some s'"
  shows "sound e s' (h @ step_events e s i)"
proof -
  from inv have g: "on_graph e s h" and r: "recorded e s h" and p: "pending s h"
    and pr: "progress e s h" and lp: "links_put e h" and sf: "seed_first s h"
    and da: "deep_after_seed s h" and sh: "shallow_first (queue s)" and ea: "early e s h"
    by (simp_all add: sound_def)
  note on_graph_step [OF g step] recorded_step [OF r step] pending_step [OF p step]
    progress_step [OF pr step] links_put_step [OF lp step] seed_first_step [OF sf step]
    deep_after_seed_step [OF da g step] shallow_first_step [OF sh da g pr step]
    early_step [OF ea da lp p sh step]
  then show ?thesis
    unfolding sound_def by (intro conjI)
qed

lemma sound_exec:
  assumes "exec e (start url md c) sched = Some s"
  shows "sound e s (trace e (start url md c) sched)"
  using exec_invariant [where P = "sound e" and h = "[]", OF sound_step sound_start assms]
  by simp

section \<open>The log of a quiescent run\<close>

lemma begun_depth_unique:
  assumes "distinct (begun h)" and "Begin u d \<in> set h" and "Begin u d' \<in> set h"
  shows "d = d'"
  using assms
proof (induction h rule: begun.induct)
  case 1
  then show ?case by simp
next
  case (2 v k h)
  show ?case
  proof (cases "v = u")
    case True
    with "2.prems"(1) have "u \<notin> set (begun h)" by simp
    then have "Begin u x \<notin> set h" for x by (auto simp: begun_set)
    with "2.prems"(2,3) show ?thesis by auto
  next
    case False
    with 2 show ?thesis by auto
  qed
qed auto

lemma hops_pred:
  assumes "hops e seed u d" and "d \<noteq> 0"
  shows "\<exists>v. hops e seed v (d - 1) \<and> u \<in> set (links e v)"
  using assms by (cases rule: hops.cases) auto

lemma get_expected: "''GET'' \<in> set (expected e u)"
  by (simp add: expected_def methods_def)

lemma log_pairs_probes:
  assumes "recorded e s h"
  shows "(u, m) \<in> set (log_pairs s) \<longleftrightarrow> (\<exists>d. Probe u d m \<in> set h) \<and> fetch e u m \<noteq> None"
proof -
  have one: "(u, m) \<in> (\<lambda>r. (out_url r, out_method r)) ` set (outcome_of e ev)
      \<longleftrightarrow> (\<exists>d. ev = Probe u d m) \<and> fetch e u m \<noteq> None" for ev
  proof (cases ev)
    case (Probe v k n)
    then show ?thesis
      by (cases "fetch e v n") (auto simp: recs_def)
  qed simp_all
  from assms have "set (log_pairs s)
      = (\<Union>ev \<in> set h. (\<lambda>r. (out_url r, out_method r)) ` set (outcome_of e ev))"
    by (auto simp: recorded_def log_pairs_def)
  then show ?thesis
    using one by auto
qed

text \<open>In a quiescent state of a run with a depth bound of 2 or less the visited set
  holds the addresses within \<open>max_depth\<close> links of the seed.\<close>

lemma quiescent_visited:
  assumes run: "exec e (start url md c) sched = Some s" and j: "join_returns s"
    and md: "md \<le> 2"
  shows "visited s = within e url md"
proof -
  let ?tr = "trace e (start url md c) sched"
  note fr = exec_start_frame [OF run]
  from sound_exec [OF run] have g: "on_graph e s ?tr" and r: "recorded e s ?tr"
    and p: "pending s ?tr" and pr: "progress e s ?tr" and lp: "links_put e ?tr"
    and sf: "seed_first s ?tr" and ea: "early e s ?tr"
    by (simp_all add: sound_def)
  from j counted_quiescent [OF counted_run [OF run]]
  have q: "queue s = []" and idle: "\<forall>w \<in> set (workers s). w = Idle"
    by simp_all
  have nofetch: "\<not> fetching s i u d ms" for i u d ms
  proof
    assume "fetching s i u d ms"
    then have "Fetching u d ms \<in> set (workers s)"
      unfolding fetching_def by (metis nth_mem)
    with idle show False by auto
  qed
  from r have vis: "visited s = set (begun ?tr)" and dist: "distinct (begun ?tr)"
    by (simp_all add: recorded_def)
  from g fr have ok: "event_ok e url md ev" if "ev \<in> set ?tr" for ev
    using that unfolding on_graph_def by simp
  have put_vis: "v \<in> visited s" if "Put v k \<in> set ?tr" and "k \<le> md" for v k
    using p that q fr unfolding pending_def by force
  have seed_vis: "url \<in> visited s" if "0 \<le> md"
    using p that q fr unfolding pending_def by force
  have got: "\<exists>d. Begin u d \<in> set ?tr \<and> Probe u d ''GET'' \<in> set ?tr" if "u \<in> visited s" for u
  proof -
    from pr that nofetch have "probed ?tr u = expected e u"
      unfolding progress_def by blast
    with get_expected [of e u] have "''GET'' \<in> set (probed ?tr u)" by simp
    then obtain d where "Probe u d ''GET'' \<in> set ?tr"
      by (auto simp: probed_set)
    moreover from this pr have "Begin u d \<in> set ?tr"
      unfolding progress_def by blast
    ultimately show ?thesis by blast
  qed
  have child: "v \<in> visited s"
    if "Begin u k \<in> set ?tr" and "k + 1 \<le> md" and "v \<in> set (links e u)" for u k v
  proof -
    from that(1) have "u \<in> visited s"
      unfolding vis by (auto simp: begun_set)
    from got [OF this] obtain d where b: "Begin u d \<in> set ?tr"
      and pg: "Probe u d ''GET'' \<in> set ?tr"
      by blast
    from begun_depth_unique [OF dist that(1) b] have "d = k" by simp
    with pg lp that(3) have "Put v (k + 1) \<in> set ?tr"
      unfolding links_put_def by blast
    from put_vis [OF this that(2)] show ?thesis .
  qed
  have seed_depth: "k = 0" if b: "Begin url k \<in> set ?tr" for k
  proof -
    from ok [OF b] have "hops e url url k" and "k \<le> md" by simp_all
    with hops_nonneg [of e url url k] have "0 \<le> md" by simp
    with sf b fr have "Begin url 0 \<in> set ?tr"
      unfolding seed_first_def by auto
    from begun_depth_unique [OF dist b this] show ?thesis .
  qed
  have level1: "v \<in> visited s" if "v \<in> set (links e url)" and "1 \<le> md" for v
  proof -
    from that(2) have "url \<in> visited s" by (intro seed_vis) simp
    from got [OF this] obtain k where b: "Begin url k \<in> set ?tr" by blast
    with seed_depth have "Begin url 0 \<in> set ?tr" by blast
    from child [OF this _ that(1)] that(2) show ?thesis by simp
  qed
  have level2: "w \<in> visited s"
    if "v \<in> set (links e url)" and "w \<in> set (links e v)" and "2 \<le> md" for v w
  proof -
    from that(3) have "v \<in> visited s" by (intro level1 [OF that(1)]) simp
    from got [OF this] obtain k where b: "Begin v k \<in> set ?tr" by blast
    with ea that(1) fr have "k \<le> 1"
      unfolding early_def by blast
    with that(3) have "k + 1 \<le> md" by simp
    from child [OF b this that(2)] show ?thesis .
  qed
  have sub: "u \<in> within e url md" if "u \<in> visited s" for u
  proof -
    from that obtain d where "Begin u d \<in> set ?tr"
      unfolding vis by (auto simp: begun_set)
    from ok [OF this] show ?thesis
      by (auto simp: within_def)
  qed
  have sup: "u \<in> visited s" if "u \<in> within e url md" for u
  proof -
    from that obtain d where d: "d \<le> md" and h: "hops e url u d"
      by (auto simp: within_def)
    from hops_nonneg [OF h] d md consider "d = 0" | "d = 1" | "d = 2"
      by (cases "d = 0"; cases "d = 1"; cases "d = 2") auto
    then show ?thesis
    proof cases
      case 1
      with h have "u = url" by (simp add: hops_zero)
      with 1 d seed_vis show ?thesis by simp
    next
      case 2
      with hops_pred [OF h] obtain v where "hops e url v 0" and l: "u \<in> set (links e v)"
        by auto
      then have "v = url" by (simp add: hops_zero)
      with l 2 d level1 show ?thesis by simp
    next
      case 3
      with hops_pred [OF h] obtain v where hv: "hops e url v 1" and l: "u \<in> set (links e v)"
        by auto
      from hops_pred [OF hv] obtain x where "hops e url x 0" and lx: "v \<in> set (links e x)"
        by auto
      then have "x = url" by (simp add: hops_zero)
      with lx l 3 d level2 show ?thesis by simp
    qed
  qed
  from sub sup show ?thesis by blast
qed

lemma quiescent_pairs:
  assumes run: "exec e (start url md c) sched = Some s" and j: "join_returns s"
    and md: "md \<le> 2"
  shows "set (log_pairs s) = pairs_within e url md"
proof -
  let ?tr = "trace e (start url md c) sched"
  from sound_exec [OF run] have r: "recorded e s ?tr" and pr: "progress e s ?tr"
    by (simp_all add: sound_def)
  from j counted_quiescent [OF counted_run [OF run]]
  have idle: "\<forall>w \<in> set (workers s). w = Idle"
    by simp
  have nofetch: "\<not> fetching s i u d ms" for i u d ms
  proof
    assume "fetching s i u d ms"
    then have "Fetching u d ms \<in> set (workers s)"
      unfolding fetching_def by (metis nth_mem)
    with idle show False by auto
  qed
  have probes: "(\<exists>d. Probe u d m \<in> set ?tr) \<longleftrightarrow> u \<in> visited s \<and> m \<in> set (expected e u)" for u m
  proof (cases "u \<in> visited s")
    case True
    with pr nofetch have "probed ?tr u = expected e u"
      unfolding progress_def by blast
    with True probed_set [of m ?tr u] show ?thesis by simp
  next
    case False
    with pr have "probed ?tr u = []"
      unfolding progress_def by blast
    with False probed_set [of m ?tr u] show ?thesis by simp
  qed
  have "(u, m) \<in> set (log_pairs s) \<longleftrightarrow> (u, m) \<in> pairs_within e url md" for u m
    unfolding log_pairs_probes [OF r] probes quiescent_visited [OF run j md]
    by (simp add: pairs_within_def)
  then show ?thesis by auto
qed

section \<open>Links extracted\<close>

lemma normalised_mono:
  "normalised e base_url ts a \<Longrightarrow> set ts \<subseteq> set ts' \<Longrightarrow> normalised e base_url ts' a"
  unfolding normalised_def by blast

lemma set_add_set: "set (set_add x xs) = insert x (set xs)"
  by (auto simp: set_add_def)

lemma set_add_distinct: "distinct xs \<Longrightarrow> distinct (set_add x xs)"
  by (simp add: set_add_def)

lemma extract_loop_normalised:
  assumes "extract_loop e base_url ts acc = Some ls"
  shows "set ls \<subseteq> set acc \<union> {a. normalised e base_url ts a}"
  using assms
proof (induction ts arbitrary: acc)
  case Nil
  then show ?case by simp
next
  case (Cons t ts)
  let ?attr = "if tag_name t = ''a'' \<or> tag_name t = ''link'' then ''href'' else ''src''"
  have up: "{a. normalised e base_url ts a} \<subseteq> {a. normalised e base_url (t # ts) a}"
    by (auto intro: normalised_mono)
  show ?case
  proof (cases "map_of (tag_attrs t) ?attr")
    case None
    with Cons.prems have "extract_loop e base_url ts acc = Some ls"
      by (simp add: Let_def)
    from Cons.IH [OF this] up show ?thesis by blast
  next
    case (Some link)
    show ?thesis
    proof (cases "link = []")
      case True
      with Some Cons.prems have "extract_loop e base_url ts acc = Some ls"
        by (simp add: Let_def)
      from Cons.IH [OF this] up show ?thesis by blast
    next
      case False
      with Some Cons.prems obtain full_url parsed ok
        where j: "urljoin e base_url link = Some full_url"
          and d: "urldefrag e full_url = Some parsed"
          and v: "is_valid e parsed = Some ok"
          and r: "extract_loop e base_url ts (if ok then set_add parsed acc else acc) = Some ls"
        by (auto simp: Let_def split: option.splits)
      from Cons.IH [OF r]
      have sub: "set ls \<subseteq> set (if ok then set_add parsed acc else acc)
                  \<union> {a. normalised e base_url ts a}" .
      have "normalised e base_url (t # ts) parsed" if ok
        unfolding normalised_def using Some False j d v that by auto
      with sub up show ?thesis
        by (auto simp: set_add_set split: if_splits)
    qed
  qed
qed

lemma extract_loop_distinct:
  assumes "extract_loop e base_url ts acc = Some ls" and "distinct acc"
  shows "distinct ls"
  using assms
proof (induction ts arbitrary: acc)
  case Nil
  then show ?case by simp
next
  case (Cons t ts)
  let ?attr = "if tag_name t = ''a'' \<or> tag_name t = ''link'' then ''href'' else ''src''"
  show ?case
  proof (cases "map_of (tag_attrs t) ?attr")
    case None
    with Cons.prems have "extract_loop e base_url ts acc = Some ls"
      by (simp add: Let_def)
    from Cons.IH [OF this Cons.prems(2)] show ?thesis .
  next
    case (Some link)
    show ?thesis
    proof (cases "link = []")
      case True
      with Some Cons.prems have "extract_loop e base_url ts acc = Some ls"
        by (simp add: Let_def)
      from Cons.IH [OF this Cons.prems(2)] show ?thesis .
    next
      case False
      with Some Cons.prems obtain ok parsed
        where r: "extract_loop e base_url ts (if ok then set_add parsed acc else acc) = Some ls"
        by (auto simp: Let_def split: option.splits)
      from Cons.prems(2) have "distinct (if ok then set_add parsed acc else acc)"
        by (simp add: set_add_distinct)
      from Cons.IH [OF r this] show ?thesis .
    qed
  qed
qed

lemma found_nonempty:
  assumes "found e url m \<noteq> []"
  obtains status content hdrs where "fetch e url m = Some (status, content, hdrs)"
    and "m = ''GET''" and "is_html hdrs" and "content \<noteq> []"
    and "extract_links e content url = Some (found e url m)"
proof (cases "fetch e url m")
  case None
  with assms show thesis by (simp add: found_def)
next
  case (Some r)
  obtain status content hdrs where r: "r = (status, content, hdrs)"
    by (cases r)
  show thesis
  proof (cases "m = ''GET'' \<and> is_html hdrs \<and> content \<noteq> []")
    case False
    with assms Some r show thesis by (simp add: found_def)
  next
    case True
    show thesis
    proof (cases "extract_links e content url")
      case None
      with assms Some r True show thesis by (simp add: found_def)
    next
      case (Some ls)
      with \<open>fetch e url m = Some r\<close> r True have "found e url m = ls"
        by (simp add: found_def)
      with \<open>fetch e url m = Some r\<close> r True Some show thesis
        by (intro that [of status content hdrs]) simp_all
    qed
  qed
qed

lemma found_normalised:
  assumes "a \<in> set (found e url m)"
  shows "\<exists>content tags. soup_tags e content = Some tags
           \<and> normalised e url (find_all tags) a"
proof -
  from assms have "found e url m \<noteq> []" by auto
  then obtain status content hdrs
    where x: "extract_links e content url = Some (found e url m)"
    by (rule found_nonempty)
  from x obtain tags where t: "soup_tags e content = Some tags"
    and l: "extract_loop e url (find_all tags) [] = Some (found e url m)"
    by (auto simp: extract_links_def split: option.splits)
  from extract_loop_normalised [OF l] assms have "normalised e url (find_all tags) a"
    by auto
  with t show ?thesis by blast
qed

lemma distinct_count_list: "distinct xs \<Longrightarrow> count_list xs x = (if x \<in> set xs then 1 else 0)"
  by (induction xs) auto

section \<open>The example environments\<close>

lemma links_diamond: "links (fake_env diamond) u = diamond u"
proof -
  consider "u = ''http://s''" | "u = ''http://a''" | "u = ''http://b''"
    | "u \<noteq> ''http://s''" "u \<noteq> ''http://a''" "u \<noteq> ''http://b''"
    by blast
  then show ?thesis
  proof cases
    case 1
    show ?thesis unfolding 1 by code_simp
  next
    case 2
    show ?thesis unfolding 2 by code_simp
  next
    case 3
    show ?thesis unfolding 3 by code_simp
  next
    case 4
    then show ?thesis
      by (simp add: links_def found_def fetch_def fake_env_def extract_links_def find_all_def
          diamond_def)
  qed
qed

lemma hops_diamond:
  assumes "hops (fake_env diamond) ''http://s'' u d"
  shows "(u = ''http://s'' \<and> d = 0) \<or> ((u = ''http://a'' \<or> u = ''http://b'') \<and> d = 1)
         \<or> (u = ''http://c'' \<and> d = 2)"
  using assms
proof (induction rule: hops.induct)
  case hops_seed
  then show ?case by simp
next
  case (hops_link u d v)
  then show ?case
    by (auto simp: links_diamond diamond_def split: if_splits)
qed


lemma fake_defrag: "urldefrag (fake_env g) u = Some v \<Longrightarrow> CHR ''#'' \<notin> set v"
  by (auto simp: fake_env_def dest: set_takeWhileD)

section \<open>Claims\<close>

text \<open>
  Claim C1, as the code has it. An address is added to the visited set when a worker
  begins to process it, after the item was taken from the queue and before the first
  probe, not when it is put on the queue: after every run the visited set is the set of
  the addresses begun, and no address is begun twice. Links are put on the queue without
  a look at the visited set, so the same address can be queued several times.
\<close>

theorem visited_when_begun:
  assumes "exec e (start url md c) sched = Some s"
  shows "visited s = set (begun (trace e (start url md c) sched))
         \<and> distinct (begun (trace e (start url md c) sched))"
  using recorded_exec [OF assms] by (simp add: recorded_def)

theorem visited_when_begun_witness:
  "exec (fake_env diamond) (start ''http://s'' 2 1) (replicate 16 0) \<noteq> None
   \<and> map_option visited (exec (fake_env diamond) (start ''http://s'' 2 1) (replicate 16 0))
       = Some (set (begun (trace (fake_env diamond) (start ''http://s'' 2 1) (replicate 16 0))))
   \<and> distinct (begun (trace (fake_env diamond) (start ''http://s'' 2 1) (replicate 16 0)))"
proof -
  have "exec (fake_env diamond) (start ''http://s'' 2 1) (replicate 16 0) \<noteq> None"
    by code_simp
  then obtain s where s: "exec (fake_env diamond) (start ''http://s'' 2 1) (replicate 16 0) = Some s"
    by blast
  from visited_when_begun [OF s] s show ?thesis by simp
qed

text \<open>With a depth bound of 2 and one worker, after the seed and page \<open>a\<close> are done and
  the \<open>GET\<close> of page \<open>b\<close> is answered, the address \<open>c\<close> is on the queue twice and
  is not in the visited set.\<close>

theorem enqueued_twice_counterexample:
  "map_option queue (exec (fake_env diamond) (start ''http://s'' 2 1) (replicate 16 0))
     = Some [(''http://c'', 2), (''http://c'', 2)]
   \<and> map_option visited (exec (fake_env diamond) (start ''http://s'' 2 1) (replicate 16 0))
     = Some {''http://s'', ''http://a'', ''http://b''}"
  by code_simp


text \<open>
  Claim C2, as the code has it. \<open>process_url\<close> appends an outcome only for a probe
  that succeeded (\<open>status is not None\<close>): after every run the log is the list of the
  outcomes of the probes answered, in the order of the answers, where a failed probe
  contributes no entry. The loop goes on with the next method either way.
\<close>

theorem log_is_successful_probes:
  assumes "exec e (start url md c) sched = Some s"
  shows "results s = concat (map (outcome_of e) (trace e (start url md c) sched))"
  using recorded_exec [OF assms] by (simp add: recorded_def)

theorem log_is_successful_probes_witness:
  "exec dead_env (start ''http://s'' 2 1) (replicate 7 0) \<noteq> None
   \<and> map_option results (exec dead_env (start ''http://s'' 2 1) (replicate 7 0))
       = Some (concat (map (outcome_of dead_env)
           (trace dead_env (start ''http://s'' 2 1) (replicate 7 0))))"
proof -
  have "exec dead_env (start ''http://s'' 2 1) (replicate 7 0) \<noteq> None"
    by code_simp
  then obtain s where s: "exec dead_env (start ''http://s'' 2 1) (replicate 7 0) = Some s"
    by blast
  from log_is_successful_probes [OF s] s show ?thesis by simp
qed

text \<open>On a network where every request raises, the \<open>GET\<close> of the seed is attempted
  and answered, and the log stays empty.\<close>

theorem failed_probe_counterexample:
  "trace dead_env (start ''http://s'' 2 1) [0, 0]
     = [Begin ''http://s'' 0, Probe ''http://s'' 0 ''GET'']
   \<and> fetch dead_env ''http://s'' ''GET'' = None
   \<and> map_option results (exec dead_env (start ''http://s'' 2 1) [0, 0]) = Some []"
  by code_simp

text \<open>
  Claim C3, as the code has it. Every link found is put on the queue with the depth of
  the item plus one, whatever the depth bound; the bound is checked when an item is
  taken from the queue. So an item put has a depth from 1 to \<open>max_depth + 1\<close>, and no
  item deeper than \<open>max_depth\<close> is begun or probed. With \<open>max_depth = 0\<close> only the
  seed is probed, though its links are put on the queue.
\<close>

theorem depth_checked_at_pop:
  assumes "exec e (start url md c) sched = Some s"
  shows "queue (fst (process_url_resume e s u d m rest))
           = queue s @ map (\<lambda>l. (l, d + 1)) (found e u m)
         \<and> (\<forall>v k. Put v k \<in> set (trace e (start url md c) sched) \<longrightarrow> 1 \<le> k \<and> k \<le> md + 1)
         \<and> (\<forall>v k. Begin v k \<in> set (trace e (start url md c) sched) \<longrightarrow> k \<le> md)
         \<and> (\<forall>v k n. Probe v k n \<in> set (trace e (start url md c) sched) \<longrightarrow>
               k \<le> md \<and> (md = 0 \<longrightarrow> v = url))"
proof -
  from on_graph_exec [OF assms] exec_start_frame [OF assms]
  have ok: "event_ok e url md ev" if "ev \<in> set (trace e (start url md c) sched)" for ev
    using that by (simp add: on_graph_def)
  have "v = url" if "Probe v k n \<in> set (trace e (start url md c) sched)" and "md = 0" for v k n
  proof -
    from ok [OF that(1)] have h: "hops e url v k" and "k \<le> md" by simp_all
    with that(2) hops_nonneg [OF h] have "k = 0" by simp
    with h show ?thesis by (simp add: hops_zero)
  qed
  moreover have "1 \<le> k \<and> k \<le> md + 1" if "Put v k \<in> set (trace e (start url md c) sched)" for v k
    using ok [OF that] by simp
  moreover have "k \<le> md" if "Begin v k \<in> set (trace e (start url md c) sched)" for v k
    using ok [OF that] by simp
  moreover have "k \<le> md" if "Probe v k n \<in> set (trace e (start url md c) sched)" for v k n
    using ok [OF that] by simp
  ultimately show ?thesis
    by (simp add: process_url_resume_eq) blast
qed

theorem depth_checked_at_pop_witness:
  "exec (fake_env diamond) (start ''http://s'' 0 1) (replicate 9 0) \<noteq> None
   \<and> Put ''http://a'' 1 \<in> set (trace (fake_env diamond) (start ''http://s'' 0 1) (replicate 9 0))
   \<and> Probe ''http://s'' 0 ''GET'' \<in> set (trace (fake_env diamond) (start ''http://s'' 0 1) (replicate 9 0))
   \<and> (1::int) \<le> 1 \<and> (1::int) \<le> 0 + 1"
proof -
  have "exec (fake_env diamond) (start ''http://s'' 0 1) (replicate 9 0) \<noteq> None"
    by code_simp
  then obtain s where s: "exec (fake_env diamond) (start ''http://s'' 0 1) (replicate 9 0) = Some s"
    by blast
  have p: "Put ''http://a'' 1 \<in> set (trace (fake_env diamond) (start ''http://s'' 0 1) (replicate 9 0))"
    by code_simp
  have q: "Probe ''http://s'' 0 ''GET'' \<in> set (trace (fake_env diamond) (start ''http://s'' 0 1) (replicate 9 0))"
    by code_simp
  from depth_checked_at_pop [OF s] p q s show ?thesis by blast
qed

text \<open>With \<open>max_depth = 0\<close> the links of the seed are put on the queue at depth 1.\<close>

theorem pushed_beyond_depth_counterexample:
  "trace (fake_env diamond) (start ''http://s'' 0 1) [0, 0]
     = [Begin ''http://s'' 0, Probe ''http://s'' 0 ''GET'', Put ''http://a'' 1, Put ''http://b'' 1]
   \<and> map_option queue (exec (fake_env diamond) (start ''http://s'' 0 1) [0, 0])
     = Some [(''http://a'', 1), (''http://b'', 1)]"
  by code_simp


text \<open>
  Claim C4. No item deeper than \<open>max_depth\<close> is processed. An address that every
  path of the discovered link graph reaches from the seed only after more than
  \<open>max_depth\<close> links has no outcome in the log, no probe answered and no probe under
  way; and every probe answered is for an item of depth \<open>max_depth\<close> or less.
\<close>

theorem no_processing_beyond_max_depth:
  assumes "exec e (start url md c) sched = Some s"
    and "\<forall>d. found_path e (trace e (start url md c) sched) url a d \<longrightarrow> md < d"
  shows "(\<forall>r \<in> set (results s). out_url r \<noteq> a)
         \<and> (\<forall>d m. Probe a d m \<notin> set (trace e (start url md c) sched))
         \<and> (\<forall>d ms. Fetching a d ms \<notin> set (workers s))
         \<and> (\<forall>u d m. Probe u d m \<in> set (trace e (start url md c) sched) \<longrightarrow> d \<le> md)"
proof -
  let ?tr = "trace e (start url md c) sched"
  note fr = exec_start_frame [OF assms(1)]
  note dis = discovered_exec [OF assms(1)]
  from dis have "\<forall>u d m. Probe u d m \<in> set ?tr \<longrightarrow>
      found_path e ?tr (start_url s) u d \<and> d \<le> max_depth s"
    unfolding discovered_def by (elim conjE)
  with fr have ok: "found_path e ?tr url u d \<and> d \<le> md" if "Probe u d m \<in> set ?tr" for u d m
    using that by auto
  have probe: "Probe a d m \<notin> set ?tr" for d m
  proof
    assume "Probe a d m \<in> set ?tr"
    from ok [OF this] assms(2) show False by fastforce
  qed
  have work: "Fetching a d ms \<notin> set (workers s)" for d ms
  proof
    assume "Fetching a d ms \<in> set (workers s)"
    with dis fr have "found_path e ?tr url a d" and "d \<le> md"
      by (auto simp: discovered_def)
    with assms(2) show False by fastforce
  qed
  have log: "out_url r \<noteq> a" if "r \<in> set (results s)" for r
  proof
    assume a: "out_url r = a"
    from that log_rows [OF assms(1)] obtain ev
      where ev: "ev \<in> set ?tr" and r: "r \<in> set (outcome_of e ev)"
      by auto
    from r obtain u d m where "ev = Probe u d m" and "r \<in> set (recs e u m)"
      by (cases ev) auto
    with a have "ev = Probe a d m"
      by (auto simp: recs_def split: option.splits)
    with ev probe show False by simp
  qed
  from log probe work ok show ?thesis by blast
qed

theorem no_processing_beyond_max_depth_witness:
  "exec (fake_env diamond) (start ''http://s'' 1 1) (replicate 23 0) \<noteq> None
   \<and> found_path (fake_env diamond)
        (trace (fake_env diamond) (start ''http://s'' 1 1) (replicate 23 0))
        ''http://s'' ''http://c'' 2
   \<and> Probe ''http://c'' 2 ''GET''
        \<notin> set (trace (fake_env diamond) (start ''http://s'' 1 1) (replicate 23 0))"
proof -
  let ?tr = "trace (fake_env diamond) (start ''http://s'' 1 1) (replicate 23 0)"
  have "exec (fake_env diamond) (start ''http://s'' 1 1) (replicate 23 0) \<noteq> None"
    by code_simp
  then obtain s where s: "exec (fake_env diamond) (start ''http://s'' 1 1) (replicate 23 0) = Some s"
    by blast
  have far: "\<forall>d. found_path (fake_env diamond) ?tr ''http://s'' ''http://c'' d \<longrightarrow> 1 < d"
    using hops_diamond found_path_hops by fastforce
  have ps: "Probe ''http://s'' 0 ''GET'' \<in> set ?tr"
    by code_simp
  have pa: "Probe ''http://a'' 1 ''GET'' \<in> set ?tr"
    by code_simp
  have "found_path (fake_env diamond) ?tr ''http://s'' ''http://a'' (0 + 1)"
    by (rule by_link [OF at_seed ps]) (simp add: links_diamond diamond_def)
  then have "found_path (fake_env diamond) ?tr ''http://s'' ''http://c'' (0 + 1 + 1)"
    using pa by (rule by_link) (simp add: links_diamond diamond_def)
  then have near: "found_path (fake_env diamond) ?tr ''http://s'' ''http://c'' 2"
    by simp
  from no_processing_beyond_max_depth [OF s far] near s show ?thesis by simp
qed

text \<open>
  Claim C5. \<open>queue.join()\<close> returns exactly when the queue is empty and no worker is
  inside \<open>process_url\<close>: the counter of the queue counts the items queued and the items
  taken and not yet marked done, and a worker marks its item done only after it has put
  the links of the item on the queue. No worker ends with an exception, and at
  quiescence no worker can move.
\<close>

theorem join_iff_quiescent:
  assumes "exec e (start url md c) sched = Some s"
  shows "(join_returns s \<longleftrightarrow> queue s = [] \<and> (\<forall>w \<in> set (workers s). w = Idle))
         \<and> Crashed \<notin> set (workers s)
         \<and> (join_returns s \<longrightarrow> (\<forall>i. worker_step e s i = None))"
proof -
  from assms have cnt: "counted s" by (rule counted_run)
  have "worker_step e s i = None" if "join_returns s" for i
  proof (cases "i < length (workers s)")
    case True
    with that counted_quiescent [OF cnt] have "workers s ! i = Idle" and "queue s = []"
      by simp_all
    then show ?thesis by (simp add: worker_step_def)
  next
    case False
    then show ?thesis by (simp add: worker_step_def)
  qed
  with counted_quiescent [OF cnt] cnt show ?thesis
    by (simp add: counted_def)
qed

theorem join_iff_quiescent_witness:
  "map_option queue (exec (fake_env diamond) (start ''http://s'' 1 2) ([0, 0, 1] @ replicate 13 0 @ [1, 0] @ replicate 5 1)) = Some []
   \<and> map_option workers (exec (fake_env diamond) (start ''http://s'' 1 2) ([0, 0, 1] @ replicate 13 0 @ [1, 0] @ replicate 5 1)) = Some [Idle, Idle]
   \<and> map_option join_returns (exec (fake_env diamond) (start ''http://s'' 1 2) ([0, 0, 1] @ replicate 13 0 @ [1, 0] @ replicate 5 1)) = Some True"
proof -
  have q: "map_option queue (exec (fake_env diamond) (start ''http://s'' 1 2) ([0, 0, 1] @ replicate 13 0 @ [1, 0] @ replicate 5 1)) = Some []"
    by code_simp
  have w: "map_option workers (exec (fake_env diamond) (start ''http://s'' 1 2) ([0, 0, 1] @ replicate 13 0 @ [1, 0] @ replicate 5 1)) = Some [Idle, Idle]"
    by code_simp
  from q obtain s where s: "exec (fake_env diamond) (start ''http://s'' 1 2) ([0, 0, 1] @ replicate 13 0 @ [1, 0] @ replicate 5 1) = Some s"
    by blast
  from join_iff_quiescent [OF s] q w s show ?thesis by simp
qed

text \<open>
  Claim C6, as the code has it. The constructor checks neither the seed nor the
  concurrency: it accepts every seed address, every depth bound and every concurrency,
  and puts the seed on the queue at depth 0. A seed whose scheme is not http or https is
  processed like any other: with a positive concurrency and a depth bound of at least 0
  the first step of the run marks it visited and starts its probes. With a concurrency
  of 0 or less \<open>run\<close> creates no worker: nothing is probed and \<open>queue.join()\<close>
  never returns.
\<close>

theorem constructor_accepts_everything:
  "queue (AJAXSpider_init url md c) = [(url, 0)]
   \<and> visited (AJAXSpider_init url md c) = {}
   \<and> (0 < c \<and> 0 \<le> md \<longrightarrow>
        trace e (start url md c) [0] = [Begin url 0]
        \<and> map_option workers (exec e (start url md c) [0])
            = Some ((replicate (nat c) Idle)[0 := Fetching url 0 methods]))
   \<and> (c \<le> 0 \<longrightarrow> (\<forall>i. worker_step e (start url md c) i = None)
        \<and> \<not> join_returns (start url md c))"
proof -
  have "trace e (start url md c) [0] = [Begin url 0]
        \<and> map_option workers (exec e (start url md c) [0])
            = Some ((replicate (nat c) Idle)[0 := Fetching url 0 methods])"
    if "0 < c" and "0 \<le> md"
    using that
    by (simp add: worker_step_def process_url_begin_def worker_after_def step_events_def)
  moreover have "worker_step e (start url md c) i = None" if "c \<le> 0" for i
    using that by (simp add: worker_step_def)
  moreover have "\<not> join_returns (start url md c)"
    by (simp add: join_returns_def)
  ultimately show ?thesis
    by (simp add: AJAXSpider_init_def)
qed

theorem constructor_accepts_everything_witness:
  "is_valid dead_env ''ftp://x'' = Some False
   \<and> trace dead_env (start ''ftp://x'' 2 1) [0] = [Begin ''ftp://x'' 0]
   \<and> worker_step dead_env (start ''http://s'' 2 0) 0 = None"
proof -
  have "is_valid dead_env ''ftp://x'' = Some False"
    by code_simp
  with constructor_accepts_everything [of "''ftp://x''" 2 1 dead_env]
    constructor_accepts_everything [of "''http://s''" 2 0 dead_env]
  show ?thesis by simp
qed

text \<open>A seed with the scheme ftp is accepted, marked visited and probed; a concurrency
  of 0 is accepted, and the run waits with no worker to move.\<close>

theorem bad_seed_probed_counterexample:
  "is_valid dead_env ''ftp://x'' = Some False
   \<and> trace dead_env (start ''ftp://x'' 2 1) [0, 0]
       = [Begin ''ftp://x'' 0, Probe ''ftp://x'' 0 ''GET'']
   \<and> map_option visited (exec dead_env (start ''ftp://x'' 2 1) [0, 0]) = Some {''ftp://x''}
   \<and> worker_step dead_env (start ''http://s'' 2 0) 0 = None
   \<and> join_returns (start ''http://s'' 2 0) = False"
  by code_simp

text \<open>
  Claim C7. Every reference found in a page is resolved against the address of the page
  by \<open>urljoin\<close> and stripped of its fragment by \<open>urldefrag\<close>, and it is kept only if
  \<open>is_valid\<close> finds the scheme http or https. So every address that \<open>extract_links\<close>
  returns, and every address that \<open>process_url\<close> puts on the queue, comes from an
  attribute of a tag of the page by these two steps, has the scheme http or https, and
  has no fragment, given that what \<open>urldefrag\<close> returns has none.
\<close>

theorem extract_links_normalised:
  assumes defrag: "\<And>u v. urldefrag e u = Some v \<Longrightarrow> CHR ''#'' \<notin> set v"
  shows "(extract_links e html base_url = Some ls \<longrightarrow>
            distinct ls \<and>
            (\<forall>a \<in> set ls. is_valid e a = Some True \<and> CHR ''#'' \<notin> set a
               \<and> (\<exists>tags. soup_tags e html = Some tags
                     \<and> normalised e base_url (find_all tags) a)))
         \<and> (\<forall>(a, k) \<in> set (queue (fst (process_url_resume e s url d m rest))).
               (a, k) \<in> set (queue s)
               \<or> (k = d + 1 \<and> is_valid e a = Some True \<and> CHR ''#'' \<notin> set a
                   \<and> (\<exists>content tags. soup_tags e content = Some tags
                         \<and> normalised e url (find_all tags) a)))"
proof -
  have clean: "is_valid e a = Some True \<and> CHR ''#'' \<notin> set a"
    if "normalised e b ts a" for b ts a
    using that defrag unfolding normalised_def by blast
  have one: "distinct ls \<and>
            (\<forall>a \<in> set ls. is_valid e a = Some True \<and> CHR ''#'' \<notin> set a
               \<and> (\<exists>tags. soup_tags e html = Some tags
                     \<and> normalised e base_url (find_all tags) a))"
    if x: "extract_links e html base_url = Some ls"
  proof -
    from x obtain tags where t: "soup_tags e html = Some tags"
      and l: "extract_loop e base_url (find_all tags) [] = Some ls"
      by (auto simp: extract_links_def split: option.splits)
    from extract_loop_normalised [OF l]
    have "normalised e base_url (find_all tags) a" if "a \<in> set ls" for a
      using that by auto
    with t clean extract_loop_distinct [OF l] show ?thesis
      by auto
  qed
  have two: "(a, k) \<in> set (queue s)
               \<or> (k = d + 1 \<and> is_valid e a = Some True \<and> CHR ''#'' \<notin> set a
                   \<and> (\<exists>content tags. soup_tags e content = Some tags
                         \<and> normalised e url (find_all tags) a))"
    if "(a, k) \<in> set (queue (fst (process_url_resume e s url d m rest)))" for a k
  proof -
    from that have "(a, k) \<in> set (queue s) \<or> (k = d + 1 \<and> a \<in> set (found e url m))"
      by (auto simp: process_url_resume_eq)
    with found_normalised [of a e url m] clean show ?thesis
      by blast
  qed
  from one two show ?thesis by blast
qed

theorem extract_links_normalised_witness:
  "extract_links (fake_env mixed) ''http://s'' ''http://s'' = Some [''http://a'']
   \<and> is_valid (fake_env mixed) ''http://a'' = Some True
   \<and> CHR ''#'' \<notin> set ''http://a''"
proof -
  have x: "extract_links (fake_env mixed) ''http://s'' ''http://s'' = Some [''http://a'']"
    by code_simp
  from extract_links_normalised [of "fake_env mixed" "''http://s''" "''http://s''" "[''http://a'']",
      OF fake_defrag] x
  show ?thesis by simp
qed

text \<open>
  Claim C8, as the code has it. An address found on two or more pages is put on the
  queue once for each page, and it is processed at most once whatever the schedule: the
  first copy taken from the queue with a depth within the bound begins its processing,
  every other copy is skipped when it is taken, and no worker ends with an exception.
  When the run is quiescent the address has been processed exactly once if it is the
  seed or one of its copies was put with a depth of at most \<open>max_depth\<close>, and never
  otherwise.
\<close>

theorem processed_at_most_once:
  assumes "exec e (start url md c) sched = Some s"
  shows "count_list (begun (trace e (start url md c) sched)) u \<le> 1
         \<and> Crashed \<notin> set (workers s)
         \<and> (join_returns s \<longrightarrow>
              (count_list (begun (trace e (start url md c) sched)) u = 1
               \<longleftrightarrow> (\<exists>d. d \<le> md \<and> (Put u d \<in> set (trace e (start url md c) sched)
                                     \<or> (u = url \<and> d = 0)))))"
proof -
  let ?tr = "trace e (start url md c) sched"
  note fr = exec_start_frame [OF assms]
  from recorded_exec [OF assms] have vis: "visited s = set (begun ?tr)"
    and dist: "distinct (begun ?tr)"
    by (simp_all add: recorded_def)
  from dist have cnt: "count_list (begun ?tr) u = (if u \<in> set (begun ?tr) then 1 else 0)"
    by (rule distinct_count_list)
  from counted_run [OF assms] have nc: "Crashed \<notin> set (workers s)"
    by (simp add: counted_def)
  have "u \<in> set (begun ?tr) \<longleftrightarrow> (\<exists>d. d \<le> md \<and> (Put u d \<in> set ?tr \<or> (u = url \<and> d = 0)))"
    if j: "join_returns s"
  proof
    assume "u \<in> set (begun ?tr)"
    then obtain d where b: "Begin u d \<in> set ?tr"
      by (auto simp: begun_set)
    with on_graph_exec [OF assms] fr have "event_ok e url md (Begin u d)"
      unfolding on_graph_def by blast
    then have "d \<le> md" by simp
    moreover from sourced_exec [OF assms] b fr have "(u = url \<and> d = 0) \<or> Put u d \<in> set ?tr"
      unfolding sourced_def by blast
    ultimately show "\<exists>d. d \<le> md \<and> (Put u d \<in> set ?tr \<or> (u = url \<and> d = 0))"
      by blast
  next
    assume "\<exists>d. d \<le> md \<and> (Put u d \<in> set ?tr \<or> (u = url \<and> d = 0))"
    then obtain d where "d \<le> md" and "Put u d \<in> set ?tr \<or> (u = url \<and> d = 0)"
      by blast
    with pending_exec [OF assms] fr have "(u, d) \<in> set (queue s) \<or> u \<in> visited s"
      unfolding pending_def by blast
    moreover from j counted_quiescent [OF counted_run [OF assms]] have "queue s = []"
      by simp
    ultimately show "u \<in> set (begun ?tr)"
      using vis by simp
  qed
  with cnt nc show ?thesis by simp
qed

theorem processed_at_most_once_witness:
  "map_option join_returns (exec (fake_env diamond) (start ''http://s'' 2 1) (replicate 29 0))
     = Some True
   \<and> Put ''http://c'' 2 \<in> set (trace (fake_env diamond) (start ''http://s'' 2 1) (replicate 29 0))
   \<and> count_list (trace (fake_env diamond) (start ''http://s'' 2 1) (replicate 29 0))
        (Put ''http://c'' 2) = 2
   \<and> count_list (begun (trace (fake_env diamond) (start ''http://s'' 2 1) (replicate 29 0)))
        ''http://c'' = 1"
proof -
  have j: "map_option join_returns
      (exec (fake_env diamond) (start ''http://s'' 2 1) (replicate 29 0)) = Some True"
    by code_simp
  have p: "Put ''http://c'' 2
      \<in> set (trace (fake_env diamond) (start ''http://s'' 2 1) (replicate 29 0))"
    by code_simp
  have k: "count_list (trace (fake_env diamond) (start ''http://s'' 2 1) (replicate 29 0))
        (Put ''http://c'' 2) = 2"
    by code_simp
  from j obtain s
    where s: "exec (fake_env diamond) (start ''http://s'' 2 1) (replicate 29 0) = Some s"
      and "join_returns s"
    by auto
  with processed_at_most_once [OF s, of "''http://c''"] p
  have "count_list (begun (trace (fake_env diamond) (start ''http://s'' 2 1) (replicate 29 0)))
        ''http://c'' = 1"
    by auto
  with j p k show ?thesis by simp
qed

text \<open>With a depth bound of 1 the address \<open>c\<close>, found on the pages \<open>a\<close> and
  \<open>b\<close>, is put on the queue twice and is never processed.\<close>

theorem never_processed_counterexample:
  "map_option join_returns (exec (fake_env diamond) (start ''http://s'' 1 1) (replicate 23 0))
     = Some True
   \<and> count_list (trace (fake_env diamond) (start ''http://s'' 1 1) (replicate 23 0))
        (Put ''http://c'' 2) = 2
   \<and> count_list (begun (trace (fake_env diamond) (start ''http://s'' 1 1) (replicate 23 0)))
        ''http://c'' = 0
   \<and> begun (trace (fake_env diamond) (start ''http://s'' 1 1) (replicate 23 0))
        = [''http://s'', ''http://a'', ''http://b'']"
  by code_simp

text \<open>
  Claim C9, as the code has it. For a fixed behaviour of the probes and of the
  extraction and a depth bound of 2 or less (2 is the default), two runs that differ in
  the concurrency, or in the order in which their workers move, end with the same set of
  (address, method) pairs in the log: the successful probes of the addresses within
  \<open>max_depth\<close> links of the seed. With a depth bound of 3 or more the set can depend on
  the order, because an address is marked visited at the depth of the first of its
  copies taken from the queue, and a copy that came by a longer path can be the first.
\<close>

theorem same_pairs_up_to_depth_two:
  assumes "md \<le> 2"
    and "exec e (start url md c1) sched1 = Some s1" and "join_returns s1"
    and "exec e (start url md c2) sched2 = Some s2" and "join_returns s2"
  shows "pair_set s1 = pair_set s2 \<and> pair_set s1 = pairs_within e url md"
  using quiescent_pairs [OF assms(2,3,1)] quiescent_pairs [OF assms(4,5,1)]
  by (simp add: pair_set_def)

theorem same_pairs_up_to_depth_two_witness:
  "map_option join_returns (exec (fake_env diamond) (start ''http://s'' 2 1) (replicate 29 0))
     = Some True
   \<and> map_option join_returns (exec (fake_env diamond) (start ''http://s'' 2 2)
        ([0, 0, 1] @ replicate 19 0 @ [1, 0] @ replicate 5 1)) = Some True
   \<and> map_option pair_set (exec (fake_env diamond) (start ''http://s'' 2 1) (replicate 29 0))
     = map_option pair_set (exec (fake_env diamond) (start ''http://s'' 2 2)
        ([0, 0, 1] @ replicate 19 0 @ [1, 0] @ replicate 5 1))"
proof -
  have a: "map_option join_returns
      (exec (fake_env diamond) (start ''http://s'' 2 1) (replicate 29 0)) = Some True"
    by code_simp
  have b: "map_option join_returns (exec (fake_env diamond) (start ''http://s'' 2 2)
        ([0, 0, 1] @ replicate 19 0 @ [1, 0] @ replicate 5 1)) = Some True"
    by code_simp
  from a obtain s1
    where s1: "exec (fake_env diamond) (start ''http://s'' 2 1) (replicate 29 0) = Some s1"
      and j1: "join_returns s1"
    by auto
  from b obtain s2
    where s2: "exec (fake_env diamond) (start ''http://s'' 2 2)
        ([0, 0, 1] @ replicate 19 0 @ [1, 0] @ replicate 5 1) = Some s2"
      and j2: "join_returns s2"
    by auto
  have "(2::int) \<le> 2" by simp
  from same_pairs_up_to_depth_two [OF this s1 j1 s2 j2] a b s1 s2 show ?thesis
    by simp
qed

text \<open>
  With a depth bound of 3, one worker processes \<open>d\<close> at depth 2 and then \<open>e\<close> at
  depth 3. With two workers, the second can wait for the \<open>GET\<close> of \<open>a\<close> while the
  first goes through \<open>b\<close> and \<open>c\<close> and begins \<open>d\<close> at depth 3; then \<open>e\<close> is
  put at depth 4 and skipped, and the log has no entry for it.
\<close>

theorem order_dependent_counterexample:
  "map_option join_returns (exec (fake_env detour) (start ''http://s'' 3 1) (replicate 43 0))
     = Some True
   \<and> map_option (has_pair ''http://e'' ''GET'')
        (exec (fake_env detour) (start ''http://s'' 3 1) (replicate 43 0)) = Some True
   \<and> map_option join_returns (exec (fake_env detour) (start ''http://s'' 3 2)
        ([0, 0, 1] @ replicate 27 0 @ [1, 0] @ replicate 5 1)) = Some True
   \<and> map_option (has_pair ''http://e'' ''GET'')
        (exec (fake_env detour) (start ''http://s'' 3 2)
          ([0, 0, 1] @ replicate 27 0 @ [1, 0] @ replicate 5 1)) = Some False"
  by code_simp

text \<open>
  Claim C10. \<open>process_url\<close> called with an address that is in the visited set, or with
  a depth above the bound, returns at once and leaves the object as it was: the visited
  set, the log and the queue are unchanged. So the step of a worker that takes such an
  item from the queue changes nothing but the queue, which loses the item taken, and
  the counter of the queue.
\<close>

theorem guard_is_noop:
  assumes "url \<in> visited s \<or> max_depth s < depth"
  shows "process_url_begin s url depth = (s, Returned)
         \<and> (i < length (workers s) \<and> workers s ! i = Idle \<and> queue s = (url, depth) # q \<longrightarrow>
              (\<exists>s'. worker_step e s i = Some s' \<and> visited s' = visited s
                 \<and> results s' = results s \<and> queue s' = q
                 \<and> step_events e s i = [Skip url depth]))"
proof -
  from assms have ret: "process_url_begin s' url depth = (s', Returned)"
    if "visited s' = visited s" and "max_depth s' = max_depth s" for s'
    using that by (simp add: process_url_begin_def)
  have "\<exists>s'. worker_step e s i = Some s' \<and> visited s' = visited s
                 \<and> results s' = results s \<and> queue s' = q
                 \<and> step_events e s i = [Skip url depth]"
    if i: "i < length (workers s)" and w: "workers s ! i = Idle" and qu: "queue s = (url, depth) # q"
  proof -
    from ret [of "s\<lparr>queue := q\<rparr>"] i w qu
    have "worker_step e s i = Some (leave (s\<lparr>queue := q\<rparr>) i)"
      by (simp add: worker_step_def worker_after_def leave_def)
    moreover from assms w qu have "step_events e s i = [Skip url depth]"
      by (auto simp: step_events_def)
    ultimately show ?thesis by simp
  qed
  with ret [of s] show ?thesis by simp
qed

theorem guard_is_noop_witness:
  "max_depth (start ''http://s'' 2 1) < 3
   \<and> process_url_begin (start ''http://s'' 2 1) ''http://s'' 3 = (start ''http://s'' 2 1, Returned)"
  using guard_is_noop [of "''http://s''" "start ''http://s'' 2 1" 3] by simp


end
